theory Spec2Isabelle
  imports Complex_Main "HOL-Library.Word"
begin

section \<open>The ASCII renderer (src/utils/asciiRenderer.ts)\<close>

text \<open>
  JavaScript numbers are IEEE doubles. Dimensions, grid sizes and pixel coordinates are
  integers, which doubles hold exactly below \<open>2 ^ 53\<close>; they are modelled as \<open>nat\<close>.
  The brightness of a block (lines 48 to 60) is computed in doubles: a double is modelled
  as the rational number it denotes, and every operation rounds its exact result to the
  nearest double.
\<close>

subsection \<open>Canvas, context and pixel data\<close>

text \<open>
  One element group of the \<open>Uint8ClampedArray\<close> behind \<open>ImageData.data\<close>: four bytes
  \<open>data[i]\<close>, \<open>data[i + 1]\<close>, \<open>data[i + 2]\<close>, \<open>data[i + 3]\<close>.
\<close>

record rgba =
  red :: "8 word"
  green :: "8 word"
  blue :: "8 word"
  alpha :: "8 word"

type_synonym bitmap = "nat \<Rightarrow> nat \<Rightarrow> rgba"

text \<open>
  The 2D drawing context of a canvas: the pixel surface it reads, with the surface's
  dimensions.
\<close>

record context2d =
  surface_width :: nat
  surface_height :: nat
  surface :: bitmap

text \<open>
  An \<open>HTMLCanvasElement\<close>: \<open>width\<close> and \<open>height\<close> are unsigned, \<open>readable\<close> says
  whether \<open>getContext('2d')\<close> yields a context (it yields \<open>null\<close> otherwise).
\<close>

record canvas =
  width :: nat
  height :: nat
  readable :: bool
  pixels :: bitmap

definition context_of :: "canvas \<Rightarrow> context2d" where
  "context_of c = \<lparr>surface_width = width c, surface_height = height c, surface = pixels c\<rparr>"

definition getContext :: "canvas \<Rightarrow> context2d option" where
  "getContext c = (if readable c then Some (context_of c) else None)"

datatype dom_error = IndexSizeError

definition transparent_black :: rgba where
  "transparent_black = \<lparr>red = 0, green = 0, blue = 0, alpha = 0\<rparr>"

text \<open>
  The platform's \<open>getImageData(sx, sy, sw, sh)\<close>: it raises \<open>IndexSizeError\<close> when
  \<open>sw\<close> or \<open>sh\<close> is zero, and otherwise returns \<open>sw * sh\<close> pixels in row-major order,
  where a pixel outside the surface reads as transparent black.
\<close>

definition pixel_at :: "context2d \<Rightarrow> nat \<Rightarrow> nat \<Rightarrow> rgba" where
  "pixel_at ctx u v =
     (if u < surface_width ctx \<and> v < surface_height ctx then surface ctx u v
      else transparent_black)"

definition read_block :: "context2d \<Rightarrow> nat \<Rightarrow> nat \<Rightarrow> nat \<Rightarrow> nat \<Rightarrow> rgba list" where
  "read_block ctx sx sy sw sh =
     concat (map (\<lambda>j. map (\<lambda>i. pixel_at ctx (sx + i) (sy + j)) [0..<sw]) [0..<sh])"

definition getImageData ::
  "context2d \<Rightarrow> nat \<Rightarrow> nat \<Rightarrow> nat \<Rightarrow> nat \<Rightarrow> dom_error + rgba list" where
  "getImageData ctx sx sy sw sh =
     (if sw = 0 \<or> sh = 0 then Inl IndexSizeError else Inr (read_block ctx sx sy sw sh))"

subsection \<open>Options and their defaults\<close>

text \<open>
  The optional fields of the options object; a field left out is \<open>None\<close>. The
  specification takes the fields to be integers, and they are modelled as \<open>nat\<close>; that
  they are positive is a hypothesis wherever it is needed.
\<close>

record ASCIIRenderOptions =
  charWidth :: "nat option"
  charHeight :: "nat option"
  maxWidth :: "nat option"
  maxHeight :: "nat option"

text \<open>The destructuring defaults of \<open>renderASCII\<close>: 10, 14, 100, 60.\<close>

definition the_charWidth :: "ASCIIRenderOptions \<Rightarrow> nat" where
  "the_charWidth options = (case charWidth options of None \<Rightarrow> 10 | Some v \<Rightarrow> v)"

definition the_charHeight :: "ASCIIRenderOptions \<Rightarrow> nat" where
  "the_charHeight options = (case charHeight options of None \<Rightarrow> 14 | Some v \<Rightarrow> v)"

definition the_maxWidth :: "ASCIIRenderOptions \<Rightarrow> nat" where
  "the_maxWidth options = (case maxWidth options of None \<Rightarrow> 100 | Some v \<Rightarrow> v)"

definition the_maxHeight :: "ASCIIRenderOptions \<Rightarrow> nat" where
  "the_maxHeight options = (case maxHeight options of None \<Rightarrow> 60 | Some v \<Rightarrow> v)"

definition default_options :: ASCIIRenderOptions where
  "default_options =
     \<lparr>charWidth = None, charHeight = None, maxWidth = None, maxHeight = None\<rparr>"

subsection \<open>The glyph ramp\<close>

definition ASCII_CHARS :: string where
  "ASCII_CHARS = ''@%#*+=-:. ''"

definition newline :: char where
  "newline = CHR 0x0A"

text \<open>
  \<open>asciiArt += ASCII_CHARS[charIndex]\<close>: indexing a string out of range gives
  \<open>undefined\<close>, which \<open>+=\<close> appends as the text \<open>undefined\<close>.
\<close>

definition append_char_at :: "string \<Rightarrow> int \<Rightarrow> string" where
  "append_char_at s i =
     (if 0 \<le> i \<and> i < int (length s) then [s ! nat i] else ''undefined'')"

subsection \<open>The grid\<close>

text \<open>
  \<open>Math.min(limit, Math.floor(extent / cell))\<close>. For \<open>cell = 0\<close> the quotient is
  \<open>Infinity\<close> (the minimum is then \<open>limit\<close>), or \<open>NaN\<close> when \<open>extent = 0\<close> too; a loop
  bounded by \<open>NaN\<close> runs no iteration, as one bounded by 0.
\<close>

definition sample_extent :: "nat \<Rightarrow> nat \<Rightarrow> nat \<Rightarrow> nat" where
  "sample_extent limit extent cell =
     (if cell = 0 then (if extent = 0 then 0 else limit)
      else min limit (extent div cell))"

definition sampleWidth :: "canvas \<Rightarrow> ASCIIRenderOptions \<Rightarrow> nat" where
  "sampleWidth c options =
     sample_extent (the_maxWidth options) (width c) (the_charWidth options)"

definition sampleHeight :: "canvas \<Rightarrow> ASCIIRenderOptions \<Rightarrow> nat" where
  "sampleHeight c options =
     sample_extent (the_maxHeight options) (height c) (the_charHeight options)"

definition pixelX :: "canvas \<Rightarrow> ASCIIRenderOptions \<Rightarrow> nat \<Rightarrow> nat" where
  "pixelX c options x = (x * width c) div sampleWidth c options"

definition pixelY :: "canvas \<Rightarrow> ASCIIRenderOptions \<Rightarrow> nat \<Rightarrow> nat" where
  "pixelY c options y = (y * height c) div sampleHeight c options"

subsection \<open>Arithmetic on doubles\<close>

text \<open>
  The binary exponent of a positive number: \<open>2 ^ e \<le> x < 2 ^ (e + 1)\<close>.
\<close>

function exponent_of :: "rat \<Rightarrow> int" where
  "exponent_of x =
     (if x \<le> 0 then 0
      else if 2 \<le> x then exponent_of (x / 2) + 1
      else if x < 1 then exponent_of (2 * x) - 1
      else 0)"
  by pat_completeness auto
termination
proof (relation "measure (\<lambda>x. if 1 \<le> x then nat \<lfloor>x\<rfloor> else nat \<lfloor>1 / x\<rfloor> + 1)")
  show "wf (measure (\<lambda>x::rat. if 1 \<le> x then nat \<lfloor>x\<rfloor> else nat \<lfloor>1 / x\<rfloor> + 1))" by simp
next
  fix x :: rat
  assume "\<not> x \<le> 0" and "2 \<le> x"
  then have "\<lfloor>x / 2\<rfloor> < \<lfloor>x\<rfloor>" by (simp add: floor_less_iff) linarith
  moreover have "0 \<le> \<lfloor>x / 2\<rfloor>" using \<open>2 \<le> x\<close> by simp
  ultimately show "(x / 2, x) \<in> measure (\<lambda>x. if 1 \<le> x then nat \<lfloor>x\<rfloor> else nat \<lfloor>1 / x\<rfloor> + 1)"
    using \<open>2 \<le> x\<close> by simp
next
  fix x :: rat
  assume p: "\<not> x \<le> 0" and "\<not> 2 \<le> x" and l: "x < 1"
  then have x: "0 < x" by simp
  have i: "1 < 1 / x" using x l by simp
  show "(2 * x, x) \<in> measure (\<lambda>x. if 1 \<le> x then nat \<lfloor>x\<rfloor> else nat \<lfloor>1 / x\<rfloor> + 1)"
  proof (cases "1 \<le> 2 * x")
    case True
    then have "\<lfloor>2 * x\<rfloor> = 1" using l by (simp add: floor_eq_iff)
    moreover have "1 \<le> \<lfloor>1 / x\<rfloor>" using i by (simp add: le_floor_iff)
    ultimately show ?thesis using True l by simp
  next
    case False
    then have "2 \<le> 1 / x" using x by (simp add: le_divide_eq)
    then have "\<lfloor>(1 / x) / 2\<rfloor> < \<lfloor>1 / x\<rfloor>" by (simp add: floor_less_iff) linarith
    moreover have "1 / (2 * x) = (1 / x) / 2" by simp
    ultimately have a: "\<lfloor>1 / (2 * x)\<rfloor> < \<lfloor>1 / x\<rfloor>" by (simp only:)
    have b: "0 \<le> \<lfloor>1 / (2 * x)\<rfloor>" using x by simp
    have "nat \<lfloor>1 / (2 * x)\<rfloor> + 1 < nat \<lfloor>1 / x\<rfloor> + 1" using a b by linarith
    then show ?thesis using False l by (simp del: floor_divide_eq_div_numeral)
  qed
qed

declare exponent_of.simps [simp del]

text \<open>The nearest integer, a tie going to the even one.\<close>

definition round_even :: "rat \<Rightarrow> int" where
  "round_even y =
     (let f = \<lfloor>y\<rfloor>; r = y - of_int f
      in if r < 1 / 2 then f else if 1 / 2 < r then f + 1 else if even f then f else f + 1)"

text \<open>
  Rounding to the nearest double: 53 significant bits, ties to even. The range of the
  exponent is not bounded; no value of the brightness computation leaves the range of
  normal doubles unless a block holds more than \<open>2 ^ 1000\<close> pixels.
\<close>

definition to_double :: "rat \<Rightarrow> rat" where
  "to_double x =
     (if x = 0 then 0
      else of_int (round_even (x / 2 powi (exponent_of \<bar>x\<bar> - 52))) * 2 powi (exponent_of \<bar>x\<bar> - 52))"

text \<open>The operations on doubles: the exact result, rounded.\<close>

definition double_add :: "rat \<Rightarrow> rat \<Rightarrow> rat" where
  "double_add x y = to_double (x + y)"

definition double_mul :: "rat \<Rightarrow> rat \<Rightarrow> rat" where
  "double_mul x y = to_double (x * y)"

definition double_div :: "rat \<Rightarrow> rat \<Rightarrow> rat" where
  "double_div x y = to_double (x / y)"

subsection \<open>Brightness of a block and its glyph\<close>

text \<open>A byte of the pixel data read as a number, in \<open>0..255\<close>.\<close>

definition channel :: "8 word \<Rightarrow> rat" where
  "channel w = of_nat (unat w)"

text \<open>
  \<open>0.299 * r + 0.587 * g + 0.114 * b\<close>: each literal is the double nearest to the
  decimal, each product and each sum is rounded, the sum is taken from the left.
\<close>

definition luminance :: "rgba \<Rightarrow> rat" where
  "luminance p =
     double_add
       (double_add (double_mul (to_double 0.299) (channel (red p)))
                   (double_mul (to_double 0.587) (channel (green p))))
       (double_mul (to_double 0.114) (channel (blue p)))"

text \<open>The summand of one pixel: \<open>(0.299 * r + 0.587 * g + 0.114 * b) * (a / 255)\<close>.\<close>

definition weighted :: "rgba \<Rightarrow> rat" where
  "weighted p = double_mul (luminance p) (double_div (channel (alpha p)) 255)"

text \<open>
  The loop over \<open>data\<close> in steps of four bytes, one pixel each:
  \<open>brightness += ...\<close> rounds every partial sum.
\<close>

fun accumulate :: "rgba list \<Rightarrow> rat \<Rightarrow> rat" where
  "accumulate [] brightness = brightness"
| "accumulate (p # data) brightness = accumulate data (double_add brightness (weighted p))"

text \<open>\<open>brightness / (charWidth * charHeight * 255)\<close>.\<close>

definition block_brightness :: "ASCIIRenderOptions \<Rightarrow> rgba list \<Rightarrow> rat" where
  "block_brightness options data =
     double_div (accumulate data 0)
       (double_mul (double_mul (of_nat (the_charWidth options)) (of_nat (the_charHeight options)))
          255)"

text \<open>\<open>Math.floor(brightness * (ASCII_CHARS.length - 1))\<close>.\<close>

definition charIndex :: "rat \<Rightarrow> int" where
  "charIndex brightness = \<lfloor>double_mul brightness (of_nat (length ASCII_CHARS - 1))\<rfloor>"

text \<open>The body of the inner loop: the text appended for grid cell \<open>(x, y)\<close>.\<close>

definition render_cell ::
  "canvas \<Rightarrow> context2d \<Rightarrow> ASCIIRenderOptions \<Rightarrow> nat \<Rightarrow> nat \<Rightarrow> dom_error + string" where
  "render_cell c ctx options x y =
     (case getImageData ctx (pixelX c options x) (pixelY c options y)
             (the_charWidth options) (the_charHeight options) of
        Inl e \<Rightarrow> Inl e
      | Inr data \<Rightarrow> Inr (append_char_at ASCII_CHARS (charIndex (block_brightness options data))))"

subsection \<open>The two loops and \<open>renderASCII\<close>\<close>

function x_loop ::
  "canvas \<Rightarrow> context2d \<Rightarrow> ASCIIRenderOptions \<Rightarrow> nat \<Rightarrow> nat \<Rightarrow> string \<Rightarrow> dom_error + string"
  where
  "x_loop c ctx options y x asciiArt =
     (if x < sampleWidth c options
      then (case render_cell c ctx options x y of
              Inl e \<Rightarrow> Inl e
            | Inr g \<Rightarrow> x_loop c ctx options y (Suc x) (asciiArt @ g))
      else Inr asciiArt)"
  by pat_completeness auto
termination
  by (relation "measure (\<lambda>(c, ctx, options, y, x, asciiArt). sampleWidth c options - x)") auto

function y_loop ::
  "canvas \<Rightarrow> context2d \<Rightarrow> ASCIIRenderOptions \<Rightarrow> nat \<Rightarrow> string \<Rightarrow> dom_error + string"
  where
  "y_loop c ctx options y asciiArt =
     (if y < sampleHeight c options
      then (case x_loop c ctx options y 0 asciiArt of
              Inl e \<Rightarrow> Inl e
            | Inr row \<Rightarrow> y_loop c ctx options (Suc y) (row @ [newline]))
      else Inr asciiArt)"
  by pat_completeness auto
termination
  by (relation "measure (\<lambda>(c, ctx, options, y, asciiArt). sampleHeight c options - y)") auto

declare x_loop.simps [simp del]
declare y_loop.simps [simp del]

definition renderASCII :: "canvas \<Rightarrow> ASCIIRenderOptions \<Rightarrow> dom_error + string" where
  "renderASCII c options =
     (case getContext c of
        None \<Rightarrow> Inr ''''
      | Some ctx \<Rightarrow> y_loop c ctx options 0 '''')"

subsection \<open>The grid of glyphs, for stating what the loops produce\<close>

definition cell_brightness :: "canvas \<Rightarrow> ASCIIRenderOptions \<Rightarrow> nat \<Rightarrow> nat \<Rightarrow> rat" where
  "cell_brightness c options x y =
     block_brightness options
       (read_block (context_of c) (pixelX c options x) (pixelY c options y)
          (the_charWidth options) (the_charHeight options))"

definition cell_glyph :: "canvas \<Rightarrow> ASCIIRenderOptions \<Rightarrow> nat \<Rightarrow> nat \<Rightarrow> char" where
  "cell_glyph c options x y = ASCII_CHARS ! nat (charIndex (cell_brightness c options x y))"

definition grid_row :: "canvas \<Rightarrow> ASCIIRenderOptions \<Rightarrow> nat \<Rightarrow> string" where
  "grid_row c options y = map (\<lambda>x. cell_glyph c options x y) [0..<sampleWidth c options]"

definition grid_rows :: "canvas \<Rightarrow> ASCIIRenderOptions \<Rightarrow> string list" where
  "grid_rows c options = map (grid_row c options) [0..<sampleHeight c options]"

text \<open>Every line followed by one newline.\<close>

definition terminated_lines :: "string list \<Rightarrow> string" where
  "terminated_lines ls = concat (map (\<lambda>l. l @ [newline]) ls)"

text \<open>
  A text is a block of \<open>rows\<close> lines of \<open>cols\<close> characters: \<open>rows\<close> times, \<open>cols\<close>
  characters other than the newline and then a newline, and nothing else.
\<close>

fun text_block :: "nat \<Rightarrow> nat \<Rightarrow> string \<Rightarrow> bool" where
  "text_block 0 cols s = (s = [])"
| "text_block (Suc rows) cols s =
     (cols < length s \<and> newline \<notin> set (take cols s) \<and> s ! cols = newline
      \<and> text_block rows cols (drop (Suc cols) s))"

subsection \<open>The grid and the brightness in the words of the specification\<close>

text \<open>
  Section 4.1 of the specification: \<open>cols = min(maxWidth, floor(frame.width / charWidth))\<close>,
  \<open>rows = min(maxHeight, floor(frame.height / charHeight))\<close>, both floored at 1.
\<close>

definition spec_cols :: "canvas \<Rightarrow> ASCIIRenderOptions \<Rightarrow> nat" where
  "spec_cols c options = max 1 (min (the_maxWidth options) (width c div the_charWidth options))"

definition spec_rows :: "canvas \<Rightarrow> ASCIIRenderOptions \<Rightarrow> nat" where
  "spec_rows c options = max 1 (min (the_maxHeight options) (height c div the_charHeight options))"

text \<open>
  Section 4.1 of the specification: the sum over the sampled block of
  \<open>(0.299 R + 0.587 G + 0.114 B) (alpha / 255)\<close>, divided by
  \<open>charWidth * charHeight * 255\<close>, as an exact number.
\<close>

definition spec_brightness :: "context2d \<Rightarrow> nat \<Rightarrow> nat \<Rightarrow> nat \<Rightarrow> nat \<Rightarrow> rat" where
  "spec_brightness ctx px py cw ch =
     (\<Sum>j < ch. \<Sum>i < cw.
        (0.299 * channel (red (pixel_at ctx (px + i) (py + j)))
         + 0.587 * channel (green (pixel_at ctx (px + i) (py + j)))
         + 0.114 * channel (blue (pixel_at ctx (px + i) (py + j))))
        * (channel (alpha (pixel_at ctx (px + i) (py + j))) / 255))
     / (of_nat cw * of_nat ch * 255)"

text \<open>The summand of one pixel in that sum, as an exact number.\<close>

definition exact_term :: "rgba \<Rightarrow> rat" where
  "exact_term p =
     (0.299 * channel (red p) + 0.587 * channel (green p) + 0.114 * channel (blue p))
     * (channel (alpha p) / 255)"

text \<open>
  The same formula evaluated in doubles, as a program computes it: every product, sum
  and quotient rounded, the pixels of the block added row by row from the left.
\<close>

definition rounded_brightness :: "context2d \<Rightarrow> nat \<Rightarrow> nat \<Rightarrow> nat \<Rightarrow> nat \<Rightarrow> rat" where
  "rounded_brightness ctx px py cw ch =
     double_div
       (foldl (\<lambda>s (i, j).
                 double_add s
                   (double_mul
                      (double_add
                         (double_add
                            (double_mul (to_double 0.299)
                               (channel (red (pixel_at ctx (px + i) (py + j)))))
                            (double_mul (to_double 0.587)
                               (channel (green (pixel_at ctx (px + i) (py + j))))))
                         (double_mul (to_double 0.114)
                            (channel (blue (pixel_at ctx (px + i) (py + j))))))
                      (double_div (channel (alpha (pixel_at ctx (px + i) (py + j)))) 255)))
          0 (concat (map (\<lambda>j. map (\<lambda>i. (i, j)) [0..<cw]) [0..<ch])))
       (double_mul (double_mul (of_nat cw) (of_nat ch)) 255)"

subsection \<open>\<open>getOptimalSettings\<close>\<close>

definition getOptimalSettings :: "nat \<Rightarrow> nat \<Rightarrow> ASCIIRenderOptions" where
  "getOptimalSettings canvasWidth canvasHeight =
     (let scale = (of_nat (max canvasWidth canvasHeight) :: rat) / 1000
      in \<lparr>charWidth = Some (max 8 (nat \<lfloor>10 * scale\<rfloor>)),
          charHeight = Some (max 12 (nat \<lfloor>14 * scale\<rfloor>)),
          maxWidth = Some (canvasWidth div 12),
          maxHeight = Some (canvasHeight div 16)\<rparr>)"

section \<open>The frame loop (the video branch of \<open>processFrame\<close>)\<close>










section \<open>Example inputs\<close>


definition white :: rgba where
  "white = \<lparr>red = 255, green = 255, blue = 255, alpha = 255\<rparr>"

definition no_context_canvas :: canvas where
  "no_context_canvas = \<lparr>width = 640, height = 480, readable = False, pixels = (\<lambda>u v. white)\<rparr>"

definition uniform_canvas :: "nat \<Rightarrow> nat \<Rightarrow> rgba \<Rightarrow> canvas" where
  "uniform_canvas w h p = \<lparr>width = w, height = h, readable = True, pixels = (\<lambda>u v. p)\<rparr>"

definition options_of :: "nat \<Rightarrow> nat \<Rightarrow> nat \<Rightarrow> nat \<Rightarrow> ASCIIRenderOptions" where
  "options_of cw ch mw mh =
     \<lparr>charWidth = Some cw, charHeight = Some ch, maxWidth = Some mw, maxHeight = Some mh\<rparr>"

definition grey :: rgba where
  "grey = \<lparr>red = 128, green = 128, blue = 128, alpha = 255\<rparr>"




text \<open>Two pixels of the same exact luminance, 85.\<close>

definition leaf :: rgba where
  "leaf = \<lparr>red = 6, green = 140, blue = 9, alpha = 255\<rparr>"

definition slate :: rgba where
  "slate = \<lparr>red = 85, green = 85, blue = 85, alpha = 255\<rparr>"



section \<open>Auxiliary lemmas\<close>

subsection \<open>Rounding to a double\<close>

lemma exponent_of_spec:
  "0 < x \<Longrightarrow> 2 powi exponent_of x \<le> x \<and> x < 2 powi (exponent_of x + 1)"
proof (induction x rule: exponent_of.induct)
  case (1 x)
  show ?case
  proof (cases "2 \<le> x")
    case True
    then have e: "exponent_of x = exponent_of (x / 2) + 1" using 1(3) by (subst exponent_of.simps) simp
    have "2 powi exponent_of (x / 2) \<le> x / 2 \<and> x / 2 < 2 powi (exponent_of (x / 2) + 1)"
      using 1(1) 1(3) True by simp
    then show ?thesis unfolding e by (simp add: power_int_add)
  next
    case False
    show ?thesis
    proof (cases "x < 1")
      case True
      then have e: "exponent_of x = exponent_of (2 * x) - 1" using 1(3) False by (subst exponent_of.simps) simp
      have "2 powi exponent_of (2 * x) \<le> 2 * x \<and> 2 * x < 2 powi (exponent_of (2 * x) + 1)"
        using 1(2) 1(3) False True by simp
      then show ?thesis unfolding e by (simp add: power_int_add power_int_diff)
    next
      case True': False
      then have e: "exponent_of x = 0" using 1(3) \<open>\<not> 2 \<le> x\<close> by (subst exponent_of.simps) simp
      show ?thesis unfolding e using True' \<open>\<not> 2 \<le> x\<close> by simp
    qed
  qed
qed


lemma two_powi_less_imp:
  assumes "(2::rat) powi m < 2 powi n"
  shows "m < n"
proof (rule ccontr)
  assume "\<not> m < n"
  then have "n \<le> m" by simp
  then have "(2::rat) powi n \<le> 2 powi m" by (intro power_int_increasing) simp_all
  then show False using assms by simp
qed

lemma exponent_of_unique:
  assumes "0 < x" and "2 powi e \<le> x" and "x < 2 powi (e + 1)"
  shows "exponent_of x = e"
proof -
  have s: "2 powi exponent_of x \<le> x" "x < 2 powi (exponent_of x + 1)" using exponent_of_spec [OF assms(1)] by simp_all
  have "(2::rat) powi e < 2 powi (exponent_of x + 1)" using assms(2) s(2) by simp
  then have a: "e < exponent_of x + 1" by (rule two_powi_less_imp)
  have "(2::rat) powi exponent_of x < 2 powi (e + 1)" using assms(3) s(1) by simp
  then have b: "exponent_of x < e + 1" by (rule two_powi_less_imp)
  show ?thesis using a b by simp
qed

lemma exponent_of_mono:
  assumes "0 < x" and "x \<le> y"
  shows "exponent_of x \<le> exponent_of y"
proof -
  have "2 powi exponent_of x \<le> x" using exponent_of_spec [OF assms(1)] by simp
  moreover have "y < 2 powi (exponent_of y + 1)" using exponent_of_spec [of y] assms by simp
  ultimately have "(2::rat) powi exponent_of x < 2 powi (exponent_of y + 1)" using assms(2) by simp
  then have "exponent_of x < exponent_of y + 1" by (rule two_powi_less_imp)
  then show ?thesis by simp
qed

lemma round_even_of_int: "round_even (of_int m) = m"
  by (simp add: round_even_def)

lemma round_even_range: "\<lfloor>y\<rfloor> \<le> round_even y \<and> round_even y \<le> \<lfloor>y\<rfloor> + 1"
  by (simp add: round_even_def Let_def)

lemma round_even_mono:
  assumes "y \<le> z"
  shows "round_even y \<le> round_even z"
proof (cases "\<lfloor>y\<rfloor> < \<lfloor>z\<rfloor>")
  case True
  have "round_even y \<le> \<lfloor>y\<rfloor> + 1" using round_even_range [of y] by simp
  also have "\<dots> \<le> \<lfloor>z\<rfloor>" using True by simp
  also have "\<dots> \<le> round_even z" using round_even_range [of z] by simp
  finally show ?thesis .
next
  case False
  moreover have "\<lfloor>y\<rfloor> \<le> \<lfloor>z\<rfloor>" using assms by (rule floor_mono)
  ultimately have e: "\<lfloor>y\<rfloor> = \<lfloor>z\<rfloor>" by simp
  have "y - of_int \<lfloor>z\<rfloor> \<le> z - of_int \<lfloor>z\<rfloor>" using assms by simp
  then show ?thesis unfolding round_even_def Let_def e by auto
qed

lemma round_even_near:
  assumes "of_int m - 1 / 2 < y" and "y < of_int m + 1 / 2"
  shows "round_even y = m"
proof (cases "of_int m \<le> y")
  case True
  then have "\<lfloor>y\<rfloor> = m" using assms(2) by (simp add: floor_eq_iff)
  then show ?thesis using assms(2) by (simp add: round_even_def Let_def)
next
  case False
  then have f: "\<lfloor>y\<rfloor> = m - 1" using assms(1) by (simp add: floor_eq_iff)
  have "1 / 2 < y - of_int (m - 1)" using assms(1) by simp
  then show ?thesis unfolding round_even_def Let_def f by simp
qed

lemma to_double_0: "to_double 0 = 0"
  by (simp add: to_double_def)

lemma to_double_pos_eq:
  "0 < x \<Longrightarrow> to_double x = of_int (round_even (x / 2 powi (exponent_of x - 52))) * 2 powi (exponent_of x - 52)"
  by (simp add: to_double_def)

lemma to_double_eqI:
  assumes "0 < x" and "2 powi e \<le> x" and "x < 2 powi (e + 1)"
    and "round_even (x / 2 powi (e - 52)) = m"
  shows "to_double x = of_int m * 2 powi (e - 52)"
  using assms(4) by (simp add: to_double_pos_eq [OF assms(1)] exponent_of_unique [OF assms(1,2,3)])

lemma scaled_range:
  assumes "0 < x"
  shows "2 ^ 52 \<le> x / 2 powi (exponent_of x - 52) \<and> x / 2 powi (exponent_of x - 52) < 2 ^ 53"
proof -
  let ?q = "(2::rat) powi (exponent_of x - 52)"
  have q: "0 < ?q" by simp
  have a: "2 ^ 52 * ?q = 2 powi exponent_of x"
    by (simp add: power_int_diff)
  have b: "2 ^ 53 * ?q = 2 powi (exponent_of x + 1)"
    by (simp add: power_int_diff power_int_add)
  have "2 ^ 52 * ?q \<le> x" "x < 2 ^ 53 * ?q"
    unfolding a b using exponent_of_spec [OF assms] by simp_all
  then show ?thesis using q by (simp add: pos_le_divide_eq pos_divide_less_eq)
qed

lemma to_double_binade:
  assumes "0 < x"
  shows "2 powi exponent_of x \<le> to_double x \<and> to_double x \<le> 2 powi (exponent_of x + 1)"
proof -
  let ?q = "(2::rat) powi (exponent_of x - 52)"
  let ?y = "x / ?q"
  let ?r = "(of_int (round_even ?y) :: rat)"
  have q: "0 < ?q" by simp
  have c52: "(of_int (2 ^ 52) :: rat) = 2 ^ 52" and c53: "(of_int (2 ^ 53) :: rat) = 2 ^ 53"
    by simp_all
  have "round_even (of_int (2 ^ 52)) \<le> round_even ?y"
    using scaled_range [OF assms] by (intro round_even_mono) simp
  then have "2 ^ 52 \<le> round_even ?y" by (simp only: round_even_of_int)
  then have "(of_int (2 ^ 52) :: rat) \<le> ?r" by (simp only: of_int_le_iff)
  then have lo: "2 ^ 52 \<le> ?r" by (simp only: c52)
  have "round_even ?y \<le> round_even (of_int (2 ^ 53))"
    using scaled_range [OF assms] by (intro round_even_mono) simp
  then have "round_even ?y \<le> 2 ^ 53" by (simp only: round_even_of_int)
  then have "?r \<le> (of_int (2 ^ 53) :: rat)" by (simp only: of_int_le_iff)
  then have hi: "?r \<le> 2 ^ 53" by (simp only: c53)
  have a: "2 ^ 52 * ?q = 2 powi exponent_of x"
    by (simp add: power_int_diff)
  have b: "2 ^ 53 * ?q = 2 powi (exponent_of x + 1)"
    by (simp add: power_int_diff power_int_add)
  have "2 ^ 52 * ?q \<le> ?r * ?q" using lo q by (intro mult_right_mono) simp_all
  then have l: "2 powi exponent_of x \<le> to_double x" by (simp only: a to_double_pos_eq [OF assms])
  have "?r * ?q \<le> 2 ^ 53 * ?q" using hi q by (intro mult_right_mono) simp_all
  then have h: "to_double x \<le> 2 powi (exponent_of x + 1)" by (simp only: b to_double_pos_eq [OF assms])
  show ?thesis using l h by simp
qed

lemma to_double_pos: "0 < x \<Longrightarrow> 0 < to_double x"
proof -
  assume x: "0 < x"
  have "(0::rat) < 2 powi exponent_of x" by simp
  also have "\<dots> \<le> to_double x" using to_double_binade [OF x] by simp
  finally show ?thesis .
qed

lemma to_double_mono:
  assumes "0 \<le> x" and "x \<le> y"
  shows "to_double x \<le> to_double y"
proof (cases "x = 0")
  case True
  show ?thesis
  proof (cases "y = 0")
    case True
    then show ?thesis using \<open>x = 0\<close> by simp
  next
    case False
    then have "0 < to_double y" using assms \<open>x = 0\<close> by (intro to_double_pos) simp
    then show ?thesis using \<open>x = 0\<close> by (simp add: to_double_0)
  qed
next
  case False
  then have x: "0 < x" and y: "0 < y" using assms by simp_all
  have le: "exponent_of x \<le> exponent_of y" using x assms(2) by (rule exponent_of_mono)
  show ?thesis
  proof (cases "exponent_of x = exponent_of y")
    case True
    let ?q = "(2::rat) powi (exponent_of y - 52)"
    have q: "0 < ?q" by simp
    have "x / ?q \<le> y / ?q" using assms(2) q by (simp add: divide_right_mono)
    then have "round_even (x / ?q) \<le> round_even (y / ?q)" by (rule round_even_mono)
    then have "(of_int (round_even (x / ?q)) :: rat) \<le> of_int (round_even (y / ?q))"
      by (simp only: of_int_le_iff)
    then have "of_int (round_even (x / ?q)) * ?q \<le> of_int (round_even (y / ?q)) * ?q"
      using q by (intro mult_right_mono) simp_all
    then show ?thesis by (simp add: to_double_pos_eq [OF x] to_double_pos_eq [OF y] True)
  next
    case False
    then have "exponent_of x + 1 \<le> exponent_of y" using le by simp
    then have "(2::rat) powi (exponent_of x + 1) \<le> 2 powi exponent_of y"
      by (intro power_int_increasing) simp_all
    moreover have "to_double x \<le> 2 powi (exponent_of x + 1)" using to_double_binade [OF x] by simp
    moreover have "2 powi exponent_of y \<le> to_double y" using to_double_binade [OF y] by simp
    ultimately show ?thesis by linarith
  qed
qed

lemma to_double_nonneg: "0 \<le> x \<Longrightarrow> 0 \<le> to_double x"
  using to_double_mono [of 0 x] by (simp add: to_double_0)

lemma to_double_representable:
  assumes "x = of_int m * 2 powi k" and "0 < x" and "x < 2 powi (k + 53)"
  shows "to_double x = x"
proof -
  let ?e = "exponent_of x"
  have "2 powi ?e \<le> x" using exponent_of_spec [OF assms(2)] by simp
  then have "(2::rat) powi ?e < 2 powi (k + 53)" using assms(3) by simp
  then have "?e < k + 53" by (rule two_powi_less_imp)
  then have j: "0 \<le> k - (?e - 52)" by simp
  have "x / 2 powi (?e - 52) = of_int m * 2 powi (k - (?e - 52))"
    unfolding assms(1) by (simp add: power_int_diff)
  also have "\<dots> = of_int m * of_int (2 ^ nat (k - (?e - 52)))"
    using j by (simp add: power_int_def)
  also have "\<dots> = of_int (m * 2 ^ nat (k - (?e - 52)))" by simp
  finally have i: "x / 2 powi (?e - 52) = of_int (m * 2 ^ nat (k - (?e - 52)))" .
  have "to_double x = of_int (round_even (x / 2 powi (?e - 52))) * 2 powi (?e - 52)"
    using assms(2) by (rule to_double_pos_eq)
  also have "\<dots> = (x / 2 powi (?e - 52)) * 2 powi (?e - 52)"
    by (simp only: i round_even_of_int)
  also have "\<dots> = x" by simp
  finally show ?thesis .
qed

lemma to_double_of_nat:
  assumes "n < 2 ^ 53"
  shows "to_double (of_nat n) = of_nat n"
proof (cases "n = 0")
  case True
  then show ?thesis by (simp add: to_double_0)
next
  case False
  have "(of_nat n :: rat) < of_nat (2 ^ 53)" using assms by (simp only: of_nat_less_iff)
  then have "(of_nat n :: rat) < 2 powi (0 + 53)" by simp
  moreover have "(of_nat n :: rat) = of_int (int n) * 2 powi 0" by simp
  moreover have "(0::rat) < of_nat n" using False by simp
  ultimately show ?thesis by (intro to_double_representable [where m = "int n" and k = 0]) 
qed

lemma to_double_evalI:
  assumes "0 < x" and "2 powi e \<le> x" and "x < 2 powi (e + 1)"
    and "of_int m - 1 / 2 < x / 2 powi (e - 52)" and "x / 2 powi (e - 52) < of_int m + 1 / 2"
    and "r = of_int m * 2 powi (e - 52)"
  shows "to_double x = r"
  unfolding assms(6) using assms(1,2,3) by (rule to_double_eqI) (rule round_even_near [OF assms(4,5)])

lemma round_even_tie:
  assumes "y = of_int f + 1 / 2"
  shows "round_even y = (if even f then f else f + 1)"
proof -
  have "\<lfloor>y\<rfloor> = f" unfolding assms by (simp add: floor_eq_iff)
  then show ?thesis unfolding round_even_def Let_def by (simp add: assms)
qed

lemma to_double_tieI:
  assumes "0 < x" and "2 powi e \<le> x" and "x < 2 powi (e + 1)"
    and "x / 2 powi (e - 52) = of_int f + 1 / 2"
    and "r = of_int (if even f then f else f + 1) * 2 powi (e - 52)"
  shows "to_double x = r"
  unfolding assms(5) using assms(1,2,3) by (rule to_double_eqI) (rule round_even_tie [OF assms(4)])

subsection \<open>Anchors stay inside the frame\<close>

lemma sample_extent_pos:
  "0 < cell \<Longrightarrow> sample_extent limit extent cell = min limit (extent div cell)"
  by (simp add: sample_extent_def)

lemma anchor_fits:
  fixes n cell extent x :: nat
  assumes "n * cell \<le> extent" and "x < n"
  shows "(x * extent) div n + cell \<le> extent"
proof -
  define q where "q = (x * extent) div n"
  have n: "0 < n" using assms by simp
  have "Suc x \<le> n" using assms by simp
  then have "Suc x * extent \<le> n * extent" by (rule mult_le_mono1)
  then have a: "x * extent + extent \<le> n * extent" by simp
  have "q * n \<le> x * extent" unfolding q_def by simp
  then have "q * n + cell * n \<le> x * extent + n * cell"
    by (simp add: mult.commute)
  also have "\<dots> \<le> x * extent + extent" using assms by simp
  also have "\<dots> \<le> extent * n" using a by (simp add: mult.commute)
  finally have "(q + cell) * n \<le> extent * n" by (simp add: add_mult_distrib)
  then show ?thesis using n unfolding q_def by simp
qed

lemma anchor_in_frame:
  assumes "0 < cell" and "x < sample_extent limit extent cell"
  shows "(x * extent) div sample_extent limit extent cell + cell \<le> extent"
proof -
  let ?n = "sample_extent limit extent cell"
  have "?n \<le> extent div cell" using assms by (simp add: sample_extent_pos)
  then have "?n * cell \<le> (extent div cell) * cell" by (rule mult_le_mono1)
  also have "\<dots> \<le> extent" by simp
  finally show ?thesis using assms(2) by (rule anchor_fits)
qed

subsection \<open>Bounds on the brightness and the index\<close>

lemma channel_bounds: "0 \<le> channel w \<and> channel w \<le> 255"
proof -
  have "unat w < 256" using unsigned_less [of w, where ?'a = nat] by simp
  then have "unat w \<le> 255" by simp
  then have "(of_nat (unat w) :: rat) \<le> of_nat 255" by (subst of_nat_le_iff)
  moreover have "(0::rat) \<le> of_nat (unat w)" by (rule of_nat_0_le_iff)
  ultimately show ?thesis unfolding channel_def by simp
qed

lemma read_block_length: "length (read_block ctx sx sy sw sh) = sw * sh"
  by (simp add: read_block_def length_concat comp_def sum_list_triv)

lemma append_char_at_ramp:
  assumes "0 \<le> i" and "i \<le> 9"
  shows "append_char_at ASCII_CHARS i = [ASCII_CHARS ! nat i]"
  using assms by (simp add: append_char_at_def ASCII_CHARS_def)

text \<open>The weights, and the luminance of a white pixel, step by step.\<close>

lemma c299: "to_double 0.299 = 5386305154335113 / 18014398509481984"
  by (rule to_double_evalI [where e = "-2" and m = 5386305154335113]) simp_all

lemma c587: "to_double 0.587 = 2643612981266481 / 4503599627370496"
  by (rule to_double_evalI [where e = "-1" and m = 5287225962532962]) simp_all

lemma c114: "to_double 0.114 = 8214565720323785 / 72057594037927936"
  by (rule to_double_evalI [where e = "-4" and m = 8214565720323785]) simp_all

lemma white_r: "double_mul (5386305154335113 / 18014398509481984) 255 = 5365264899825991 / 70368744177664"
  unfolding double_mul_def by (rule to_double_evalI [where e = "6" and m = 5365264899825991]) simp_all

lemma white_g: "double_mul (2643612981266481 / 4503599627370496) 255 = 2633286368058409 / 17592186044416"
  unfolding double_mul_def by (rule to_double_evalI [where e = "7" and m = 5266572736116818]) simp_all

lemma white_b: "double_mul (8214565720323785 / 72057594037927936) 255 = 4091238786489385 / 140737488355328"
  unfolding double_mul_def by (rule to_double_evalI [where e = "4" and m = 8182477572978770]) simp_all

lemma white_rg: "double_add (5365264899825991 / 70368744177664) (2633286368058409 / 17592186044416) = 3974602593014907 / 17592186044416"
  unfolding double_add_def by (rule to_double_tieI [where e = "7" and f = 7949205186029813]) simp_all

lemma white_lum: "double_add (3974602593014907 / 17592186044416) (4091238786489385 / 140737488355328) = 255"
  unfolding double_add_def by (rule to_double_evalI [where e = "7" and m = 8972014882652160]) simp_all



lemma stagnation: "to_double (2 ^ 61 + 255) = 2305843009213693952"
  by (rule to_double_evalI [where e = "61" and m = 4503599627370496]) simp_all

lemma double_add_nonneg: "0 \<le> x \<Longrightarrow> 0 \<le> y \<Longrightarrow> 0 \<le> double_add x y"
  unfolding double_add_def by (rule to_double_nonneg) simp

lemma double_mul_nonneg: "0 \<le> x \<Longrightarrow> 0 \<le> y \<Longrightarrow> 0 \<le> double_mul x y"
  unfolding double_mul_def by (rule to_double_nonneg) simp

lemma double_div_nonneg: "0 \<le> x \<Longrightarrow> 0 \<le> y \<Longrightarrow> 0 \<le> double_div x y"
  unfolding double_div_def by (rule to_double_nonneg) simp

lemma double_add_mono:
  "0 \<le> x \<Longrightarrow> 0 \<le> y \<Longrightarrow> x \<le> x' \<Longrightarrow> y \<le> y' \<Longrightarrow> double_add x y \<le> double_add x' y'"
  unfolding double_add_def by (rule to_double_mono) simp_all

lemma double_mul_mono:
  "0 \<le> x \<Longrightarrow> 0 \<le> y \<Longrightarrow> x \<le> x' \<Longrightarrow> y \<le> y' \<Longrightarrow> double_mul x y \<le> double_mul x' y'"
  unfolding double_mul_def by (rule to_double_mono) (simp_all add: mult_mono)

lemma luminance_bounds: "0 \<le> luminance p \<and> luminance p \<le> 255"
proof -
  let ?r = "channel (red p)" and ?g = "channel (green p)" and ?b = "channel (blue p)"
  let ?mr = "double_mul (to_double 0.299) ?r"
  let ?mg = "double_mul (to_double 0.587) ?g"
  let ?mb = "double_mul (to_double 0.114) ?b"
  have r: "0 \<le> ?r" "?r \<le> 255" and g: "0 \<le> ?g" "?g \<le> 255" and b: "0 \<le> ?b" "?b \<le> 255"
    using channel_bounds [of "red p"] channel_bounds [of "green p"] channel_bounds [of "blue p"]
    by simp_all
  have c: "0 \<le> to_double 0.299" "0 \<le> to_double 0.587" "0 \<le> to_double 0.114"
    by (simp_all only: c299 c587 c114)
  have mr0: "0 \<le> ?mr" using c(1) r(1) by (rule double_mul_nonneg)
  have mg0: "0 \<le> ?mg" using c(2) g(1) by (rule double_mul_nonneg)
  have mb0: "0 \<le> ?mb" using c(3) b(1) by (rule double_mul_nonneg)
  have "?mr \<le> double_mul (to_double 0.299) 255"
    using c(1) r(1) order_refl r(2) by (rule double_mul_mono)
  then have mr: "?mr \<le> 5365264899825991 / 70368744177664" by (simp only: c299 white_r)
  have "?mg \<le> double_mul (to_double 0.587) 255"
    using c(2) g(1) order_refl g(2) by (rule double_mul_mono)
  then have mg: "?mg \<le> 2633286368058409 / 17592186044416" by (simp only: c587 white_g)
  have "?mb \<le> double_mul (to_double 0.114) 255"
    using c(3) b(1) order_refl b(2) by (rule double_mul_mono)
  then have mb: "?mb \<le> 4091238786489385 / 140737488355328" by (simp only: c114 white_b)
  have s0: "0 \<le> double_add ?mr ?mg" using mr0 mg0 by (rule double_add_nonneg)
  have "double_add ?mr ?mg \<le> double_add (5365264899825991 / 70368744177664) (2633286368058409 / 17592186044416)"
    using mr0 mg0 mr mg by (rule double_add_mono)
  then have s: "double_add ?mr ?mg \<le> 3974602593014907 / 17592186044416" by (simp only: white_rg)
  have l0: "0 \<le> double_add (double_add ?mr ?mg) ?mb" using s0 mb0 by (rule double_add_nonneg)
  have "double_add (double_add ?mr ?mg) ?mb \<le> double_add (3974602593014907 / 17592186044416) (4091238786489385 / 140737488355328)"
    using s0 mb0 s mb by (rule double_add_mono)
  then have "double_add (double_add ?mr ?mg) ?mb \<le> 255" by (simp only: white_lum)
  then show ?thesis using l0 by (simp only: luminance_def simp_thms)
qed

lemma to_double_1: "to_double 1 = 1"
  using to_double_of_nat [of 1] by simp

lemma to_double_255: "to_double 255 = 255"
  using to_double_of_nat [of 255] by simp

lemma alpha_factor_bounds:
  "0 \<le> double_div (channel a) 255 \<and> double_div (channel a) 255 \<le> 1"
proof -
  have a: "0 \<le> channel a / 255" "channel a / 255 \<le> 1" using channel_bounds [of a] by simp_all
  have "to_double (channel a / 255) \<le> to_double 1" using a by (rule to_double_mono)
  moreover have "0 \<le> to_double (channel a / 255)" using a(1) by (rule to_double_nonneg)
  ultimately show ?thesis by (simp add: double_div_def to_double_1)
qed

lemma weighted_bounds: "0 \<le> weighted p \<and> weighted p \<le> 255"
proof -
  let ?l = "luminance p" and ?f = "double_div (channel (alpha p)) 255"
  have l: "0 \<le> ?l" "?l \<le> 255" using luminance_bounds [of p] by simp_all
  have f: "0 \<le> ?f" "?f \<le> 1" using alpha_factor_bounds [of "alpha p"] by simp_all
  have p0: "0 \<le> ?l * ?f" using l f by simp
  have "?l * ?f \<le> 255 * 1" using l f by (intro mult_mono) simp_all
  then have "to_double (?l * ?f) \<le> to_double 255" using p0 by (intro to_double_mono) simp_all
  moreover have "0 \<le> to_double (?l * ?f)" using p0 by (rule to_double_nonneg)
  ultimately show ?thesis by (simp add: weighted_def double_mul_def to_double_255)
qed

lemma accumulate_nonneg: "0 \<le> b \<Longrightarrow> 0 \<le> accumulate data b"
proof (induction data arbitrary: b)
  case Nil
  then show ?case by simp
next
  case (Cons p data)
  have "0 \<le> b + weighted p" using Cons.prems weighted_bounds [of p] by simp
  then have "0 \<le> double_add b (weighted p)" unfolding double_add_def by (rule to_double_nonneg)
  then show ?case by (simp add: Cons.IH)
qed

lemma accumulate_le_exact:
  assumes "0 \<le> b" and "b \<le> 255 * of_nat j" and "255 * (j + length data) < 2 ^ 53"
  shows "accumulate data b \<le> 255 * of_nat (j + length data)"
  using assms
proof (induction data arbitrary: b j)
  case Nil
  then show ?case by simp
next
  case (Cons p data)
  let ?b = "double_add b (weighted p)"
  have k: "255 * Suc j < (2::nat) ^ 53" using Cons.prems(3) by simp
  have "b + weighted p \<le> 255 * of_nat j + 255" using Cons.prems(2) weighted_bounds [of p] by simp
  also have "\<dots> = of_nat (255 * Suc j)" by simp
  finally have le: "b + weighted p \<le> of_nat (255 * Suc j)" .
  have ge: "0 \<le> b + weighted p" using Cons.prems(1) weighted_bounds [of p] by simp
  have "?b \<le> to_double (of_nat (255 * Suc j))"
    unfolding double_add_def using ge le by (rule to_double_mono)
  also have "\<dots> = of_nat (255 * Suc j)" using k by (rule to_double_of_nat)
  finally have b1: "?b \<le> 255 * of_nat (Suc j)" by simp
  have b0: "0 \<le> ?b" unfolding double_add_def using ge by (rule to_double_nonneg)
  have "255 * (Suc j + length data) < (2::nat) ^ 53" using Cons.prems(3) by simp
  then have "accumulate data ?b \<le> 255 * of_nat (Suc j + length data)"
    using b0 b1 by (intro Cons.IH)
  then show ?case by simp
qed

lemma accumulate_le_cap:
  assumes "0 \<le> b" and "b \<le> 2 ^ 61"
  shows "accumulate data b \<le> 2 ^ 61"
  using assms
proof (induction data arbitrary: b)
  case Nil
  then show ?case by simp
next
  case (Cons p data)
  let ?b = "double_add b (weighted p)"
  have ge: "0 \<le> b + weighted p" using Cons.prems(1) weighted_bounds [of p] by simp
  have "b + weighted p \<le> 2 ^ 61 + 255" using Cons.prems(2) weighted_bounds [of p] by simp
  then have "?b \<le> to_double (2 ^ 61 + 255)" unfolding double_add_def using ge by (intro to_double_mono)
  then have b1: "?b \<le> 2 ^ 61" by (simp only: stagnation) simp
  have b0: "0 \<le> ?b" unfolding double_add_def using ge by (rule to_double_nonneg)
  show ?case using Cons.IH [OF b0 b1] by simp
qed


lemma to_double_scaled_nat:
  assumes "m < 2 ^ 53"
  shows "to_double (of_nat m * 2 ^ k) = of_nat m * 2 ^ k"
proof (cases "m = 0")
  case True
  then show ?thesis by (simp add: to_double_0)
next
  case False
  let ?x = "(of_nat m :: rat) * 2 ^ k"
  have e: "?x = of_int (int m) * 2 powi (int k)" by simp
  have p: "0 < ?x" using False by simp
  have "(of_nat m :: rat) < of_nat (2 ^ 53)" using assms by (simp only: of_nat_less_iff)
  then have "(of_nat m :: rat) < 2 ^ 53" by simp
  then have "?x < 2 ^ 53 * 2 ^ k" by simp
  also have "\<dots> = 2 powi (int k + 53)" by (simp add: power_int_add)
  finally have u: "?x < 2 powi (int k + 53)" .
  show ?thesis using e p u by (rule to_double_representable)
qed

lemma accumulate_le_256:
  assumes "0 \<le> b" and "b \<le> 2 ^ 61" and "b \<le> 256 * of_nat j"
  shows "accumulate data b \<le> 256 * of_nat (j + length data)"
  using assms
proof (induction data arbitrary: b j)
  case Nil
  then show ?case by simp
next
  case (Cons p data)
  let ?b = "double_add b (weighted p)"
  have ge: "0 \<le> b + weighted p" using Cons.prems(1) weighted_bounds [of p] by simp
  have b0: "0 \<le> ?b" unfolding double_add_def using ge by (rule to_double_nonneg)
  have "b + weighted p \<le> 2 ^ 61 + 255" using Cons.prems(2) weighted_bounds [of p] by simp
  then have "?b \<le> to_double (2 ^ 61 + 255)"
    unfolding double_add_def using ge by (intro to_double_mono)
  then have cap: "?b \<le> 2 ^ 61" by (simp only: stagnation) simp
  have b1: "?b \<le> 256 * of_nat (Suc j)"
  proof (cases "Suc j < 2 ^ 53")
    case True
    have "b + weighted p \<le> 256 * of_nat j + 256"
      using Cons.prems(3) weighted_bounds [of p] by simp
    also have "\<dots> = of_nat (Suc j) * 2 ^ 8" by simp
    finally have "?b \<le> to_double (of_nat (Suc j) * 2 ^ 8)"
      unfolding double_add_def using ge by (intro to_double_mono)
    also have "\<dots> = of_nat (Suc j) * 2 ^ 8" using True by (rule to_double_scaled_nat)
    finally show ?thesis by simp
  next
    case False
    then have "(2::nat) ^ 53 \<le> Suc j" by simp
    then have "(of_nat (2 ^ 53) :: rat) \<le> of_nat (Suc j)" by (simp only: of_nat_le_iff)
    then have "(2 ^ 53 :: rat) \<le> of_nat (Suc j)" by simp
    then have "(2 ^ 61 :: rat) \<le> 256 * of_nat (Suc j)" by simp
    then show ?thesis using cap by simp
  qed
  have "accumulate data ?b \<le> 256 * of_nat (Suc j + length data)"
    using b0 cap b1 by (rule Cons.IH)
  then show ?case by simp
qed

text \<open>The divisor \<open>charWidth * charHeight * 255\<close> of a block of \<open>n\<close> pixels.\<close>

lemma divisor_unfold:
  "double_mul (double_mul (of_nat cw) (of_nat ch)) 255
   = to_double (to_double (of_nat (cw * ch)) * 255)"
  by (simp only: double_mul_def of_nat_mult)

lemma divisor_small:
  assumes "cw * ch < 2 ^ 53"
  shows "double_mul (double_mul (of_nat cw) (of_nat ch)) 255 = to_double (of_nat (cw * ch * 255))"
proof -
  have "to_double (of_nat (cw * ch)) = of_nat (cw * ch)" using assms by (rule to_double_of_nat)
  then have "to_double (of_nat (cw * ch)) * 255 = of_nat (cw * ch * 255)" by simp
  then show ?thesis by (simp only: divisor_unfold)
qed

lemma divisor_exact:
  assumes "cw * ch * 255 < 2 ^ 53"
  shows "double_mul (double_mul (of_nat cw) (of_nat ch)) 255 = of_nat (cw * ch * 255)"
proof -
  have "cw * ch < 2 ^ 53" using assms by simp
  then have "double_mul (double_mul (of_nat cw) (of_nat ch)) 255
      = to_double (of_nat (cw * ch * 255))" by (rule divisor_small)
  also have "\<dots> = of_nat (cw * ch * 255)" using assms by (rule to_double_of_nat)
  finally show ?thesis .
qed

lemma divisor_mid:
  assumes "cw * ch < 2 ^ 53"
  shows "of_nat (cw * ch * 255) - 255 \<le> double_mul (double_mul (of_nat cw) (of_nat ch)) 255"
proof -
  let ?m = "cw * ch * 255"
  let ?t = "?m div 256"
  have "?t < 2 ^ 53" using assms by simp
  then have r: "to_double (of_nat ?t * 2 ^ 8) = of_nat ?t * 2 ^ 8" by (rule to_double_scaled_nat)
  have "?t * 256 \<le> ?m" by simp
  then have "(of_nat (?t * 256) :: rat) \<le> of_nat ?m" by (simp only: of_nat_le_iff)
  then have le: "(of_nat ?t :: rat) * 2 ^ 8 \<le> of_nat ?m" by simp
  have "?m mod 256 < 256" by simp
  then have "?m < ?t * 256 + 256" using div_mult_mod_eq [of ?m 256] by linarith
  then have "?m \<le> ?t * 256 + 255" by simp
  then have "(of_nat ?m :: rat) \<le> of_nat (?t * 256 + 255)" by (simp only: of_nat_le_iff)
  then have "(of_nat ?m :: rat) - 255 \<le> of_nat ?t * 2 ^ 8" by simp
  also have "\<dots> = to_double (of_nat ?t * 2 ^ 8)" by (simp only: r)
  also have "\<dots> \<le> to_double (of_nat ?m)" using le by (intro to_double_mono) simp_all
  finally show ?thesis by (simp only: divisor_small [OF assms])
qed

lemma divisor_big:
  assumes "2 ^ 53 \<le> cw * ch"
  shows "255 * 2 ^ 53 \<le> double_mul (double_mul (of_nat cw) (of_nat ch)) 255"
proof -
  let ?n = "cw * ch"
  have "(of_nat (2 ^ 53) :: rat) \<le> of_nat ?n" using assms by (simp only: of_nat_le_iff)
  then have l: "(2 ^ 53 :: rat) \<le> of_nat ?n" by simp
  have p53: "to_double (2 ^ 53) = 2 ^ 53" using to_double_scaled_nat [of 1 53] by simp
  have "to_double (2 ^ 53) \<le> to_double (of_nat ?n)" using l by (intro to_double_mono) simp_all
  then have a: "2 ^ 53 \<le> to_double (of_nat ?n)" by (simp only: p53)
  have r: "to_double (of_nat 255 * 2 ^ 53) = of_nat 255 * 2 ^ 53"
    by (rule to_double_scaled_nat) simp
  have "to_double (of_nat 255 * 2 ^ 53) \<le> to_double (to_double (of_nat ?n) * 255)"
    using a by (intro to_double_mono) simp_all
  then have "of_nat 255 * 2 ^ 53 \<le> to_double (to_double (of_nat ?n) * 255)" by (simp only: r)
  then show ?thesis by (simp only: divisor_unfold)
qed

lemma divisor_pos:
  assumes "0 < cw" and "0 < ch"
  shows "0 < double_mul (double_mul (of_nat cw) (of_nat ch)) 255"
proof -
  have "0 < to_double (of_nat (cw * ch))" using assms by (intro to_double_pos) simp
  then have "0 < to_double (to_double (of_nat (cw * ch)) * 255)" by (intro to_double_pos) simp
  then show ?thesis by (simp only: divisor_unfold)
qed


lemma to_double_35_32: "to_double (35 / 32) = 35 / 32"
  by (rule to_double_representable [where m = 35 and k = "-5"]) simp_all

lemma to_double_315_32: "to_double (315 / 32) = 315 / 32"
  by (rule to_double_representable [where m = 315 and k = "-5"]) simp_all


lemma accumulated_le_divisor:
  assumes "0 < cw" and "0 < ch" and "length data = cw * ch"
  shows "accumulate data 0 \<le> 35 / 32 * double_mul (double_mul (of_nat cw) (of_nat ch)) 255"
proof -
  let ?n = "cw * ch"
  let ?S = "accumulate data 0"
  let ?N = "double_mul (double_mul (of_nat cw) (of_nat ch)) 255"
  have N: "0 < ?N" using assms(1,2) by (rule divisor_pos)
  show ?thesis
  proof (cases "?n * 255 < 2 ^ 53")
    case True
    have "?S \<le> 255 * of_nat (0 + length data)"
      using True assms(3) by (intro accumulate_le_exact) (simp_all add: mult.commute)
    also have "\<dots> = of_nat (?n * 255)" using assms(3) by simp
    also have "\<dots> = ?N" using True by (simp only: divisor_exact)
    finally show ?thesis using N by simp
  next
    case False
    show ?thesis
    proof (cases "?n < 2 ^ 53")
      case True
      define t :: rat where "t = of_nat ?n"
      have "13 \<le> ?n" using False by simp
      then have "(of_nat 13 :: rat) \<le> of_nat ?n" by (simp only: of_nat_le_iff)
      then have n: "13 \<le> t" by (simp add: t_def)
      have "?S \<le> 256 * of_nat (0 + length data)"
        by (intro accumulate_le_256) simp_all
      then have s: "?S \<le> 256 * t" using assms(3) by (simp add: t_def)
      have "of_nat (?n * 255) - 255 \<le> ?N" using True by (rule divisor_mid)
      moreover have "(of_nat (?n * 255) :: rat) = 255 * t" by (simp add: t_def)
      ultimately have d: "255 * t - 255 \<le> ?N" by (simp only:)
      show ?thesis using s d n by linarith
    next
      case False
      then have "2 ^ 53 \<le> ?n" by simp
      then have d: "255 * 2 ^ 53 \<le> ?N" by (rule divisor_big)
      have "?S \<le> 2 ^ 61" by (intro accumulate_le_cap) simp_all
      also have "\<dots> \<le> 35 / 32 * (255 * 2 ^ 53 :: rat)" by simp
      also have "\<dots> \<le> 35 / 32 * ?N" using d by simp
      finally show ?thesis .
    qed
  qed
qed

lemma block_brightness_bounds:
  assumes "0 < the_charWidth options" and "0 < the_charHeight options"
    and "length data = the_charWidth options * the_charHeight options"
  shows "0 \<le> block_brightness options data \<and> block_brightness options data \<le> 35 / 32"
proof -
  let ?S = "accumulate data 0"
  let ?N = "double_mul (double_mul (of_nat (the_charWidth options)) (of_nat (the_charHeight options))) 255"
  have N: "0 < ?N" using assms(1,2) by (rule divisor_pos)
  have S: "0 \<le> ?S" by (rule accumulate_nonneg) simp
  have q0: "0 \<le> ?S / ?N" using S N by simp
  have "?S \<le> 35 / 32 * ?N" using assms by (rule accumulated_le_divisor)
  then have "?S / ?N \<le> 35 / 32" using N by (simp add: pos_divide_le_eq)
  then have "to_double (?S / ?N) \<le> to_double (35 / 32)" using q0 by (intro to_double_mono)
  moreover have "0 \<le> to_double (?S / ?N)" using q0 by (rule to_double_nonneg)
  ultimately show ?thesis by (simp add: block_brightness_def double_div_def to_double_35_32)
qed

lemma block_brightness_le_1:
  assumes "0 < the_charWidth options" and "0 < the_charHeight options"
    and "length data = the_charWidth options * the_charHeight options"
    and "the_charWidth options * the_charHeight options * 255 < 2 ^ 53"
  shows "block_brightness options data \<le> 1"
proof -
  let ?n = "the_charWidth options * the_charHeight options"
  let ?S = "accumulate data 0"
  let ?N = "double_mul (double_mul (of_nat (the_charWidth options)) (of_nat (the_charHeight options))) 255"
  have N: "0 < ?N" using assms(1,2) by (rule divisor_pos)
  have S: "0 \<le> ?S" by (rule accumulate_nonneg) simp
  have q0: "0 \<le> ?S / ?N" using S N by simp
  have "?S \<le> 255 * of_nat (0 + length data)"
    using assms(3,4) by (intro accumulate_le_exact) (simp_all add: mult.commute)
  also have "\<dots> = of_nat (?n * 255)" using assms(3) by simp
  also have "\<dots> = ?N" using assms(4) by (simp only: divisor_exact)
  finally have "?S / ?N \<le> 1" using N by simp
  then have "to_double (?S / ?N) \<le> to_double 1" using q0 by (intro to_double_mono)
  then show ?thesis by (simp add: block_brightness_def double_div_def to_double_1)
qed

lemma charIndex_range:
  assumes "0 \<le> b" and "b \<le> 35 / 32"
  shows "0 \<le> charIndex b \<and> charIndex b \<le> 9"
proof -
  have p: "0 \<le> b * 9" using assms by simp
  have "b * 9 \<le> 315 / 32" using assms by simp
  then have "to_double (b * 9) \<le> to_double (315 / 32)" using p by (intro to_double_mono)
  then have u: "to_double (b * 9) \<le> 315 / 32" by (simp only: to_double_315_32)
  have l: "0 \<le> to_double (b * 9)" using p by (rule to_double_nonneg)
  have "\<lfloor>to_double (b * 9)\<rfloor> \<le> \<lfloor>315 / 32 :: rat\<rfloor>" using u by (rule floor_mono)
  moreover have "\<lfloor>315 / 32 :: rat\<rfloor> = 9" by (simp add: floor_eq_iff)
  moreover have "0 \<le> \<lfloor>to_double (b * 9)\<rfloor>" using l by simp
  ultimately show ?thesis by (simp add: charIndex_def double_mul_def ASCII_CHARS_def)
qed

lemma cell_brightness_bounds:
  assumes "0 < the_charWidth options" and "0 < the_charHeight options"
  shows "0 \<le> cell_brightness c options x y \<and> cell_brightness c options x y \<le> 35 / 32"
  unfolding cell_brightness_def
  using assms by (intro block_brightness_bounds) (simp_all add: read_block_length)

lemma render_cell_glyph:
  assumes "0 < the_charWidth options" and "0 < the_charHeight options"
  shows "render_cell c (context_of c) options x y = Inr [cell_glyph c options x y]"
proof -
  have "append_char_at ASCII_CHARS (charIndex (cell_brightness c options x y))
        = [cell_glyph c options x y]"
    unfolding cell_glyph_def
    using charIndex_range cell_brightness_bounds [OF assms]
    by (intro append_char_at_ramp) simp_all
  then show ?thesis
    using assms by (simp add: render_cell_def getImageData_def cell_brightness_def)
qed

lemma cell_glyph_in_ramp:
  assumes "0 < the_charWidth options" and "0 < the_charHeight options"
  shows "cell_glyph c options x y \<in> set ASCII_CHARS"
proof -
  let ?i = "charIndex (cell_brightness c options x y)"
  have "0 \<le> ?i \<and> ?i \<le> 9"
    using cell_brightness_bounds [OF assms] by (intro charIndex_range) simp_all
  then have "nat ?i < 10" by linarith
  moreover have "length ASCII_CHARS = 10" by (simp add: ASCII_CHARS_def)
  ultimately have "nat ?i < length ASCII_CHARS" by simp
  then show ?thesis unfolding cell_glyph_def by (rule nth_mem)
qed

subsection \<open>The loops\<close>

lemma x_loop_row:
  assumes "0 < the_charWidth options" and "0 < the_charHeight options"
  shows "x_loop c (context_of c) options y x asciiArt
         = Inr (asciiArt @ map (\<lambda>x. cell_glyph c options x y) [x..<sampleWidth c options])"
proof (induction "sampleWidth c options - x" arbitrary: x asciiArt)
  case 0
  then show ?case by (simp add: x_loop.simps)
next
  case (Suc n)
  then have lt: "x < sampleWidth c options" and n: "n = sampleWidth c options - Suc x"
    by simp_all
  have "x_loop c (context_of c) options y x asciiArt
        = x_loop c (context_of c) options y (Suc x) (asciiArt @ [cell_glyph c options x y])"
    using lt by (subst x_loop.simps) (simp add: render_cell_glyph [OF assms])
  also have "\<dots> = Inr ((asciiArt @ [cell_glyph c options x y])
                @ map (\<lambda>x. cell_glyph c options x y) [Suc x..<sampleWidth c options])"
    using n by (rule Suc.hyps(1))
  finally show ?case using lt by (simp add: upt_conv_Cons)
qed

lemma y_loop_rows:
  assumes "0 < the_charWidth options" and "0 < the_charHeight options"
  shows "y_loop c (context_of c) options y asciiArt
         = Inr (asciiArt @ terminated_lines (map (grid_row c options) [y..<sampleHeight c options]))"
proof (induction "sampleHeight c options - y" arbitrary: y asciiArt)
  case 0
  then show ?case by (simp add: y_loop.simps terminated_lines_def)
next
  case (Suc n)
  then have lt: "y < sampleHeight c options" and n: "n = sampleHeight c options - Suc y"
    by simp_all
  have "y_loop c (context_of c) options y asciiArt
        = y_loop c (context_of c) options (Suc y) ((asciiArt @ grid_row c options y) @ [newline])"
    using lt by (subst y_loop.simps) (simp add: x_loop_row [OF assms] grid_row_def)
  also have "\<dots> = Inr (((asciiArt @ grid_row c options y) @ [newline])
                @ terminated_lines (map (grid_row c options) [Suc y..<sampleHeight c options]))"
    using n by (rule Suc.hyps(1))
  finally show ?case using lt by (simp add: upt_conv_Cons terminated_lines_def)
qed

lemma renderASCII_grid:
  assumes "readable c" and "0 < the_charWidth options" and "0 < the_charHeight options"
  shows "renderASCII c options = Inr (terminated_lines (grid_rows c options))"
  using assms(1) by (simp add: renderASCII_def getContext_def y_loop_rows [OF assms(2,3)] grid_rows_def)

subsection \<open>The shape of the text\<close>

lemma newline_not_in_ramp: "newline \<notin> set ASCII_CHARS"
  by (simp add: newline_def ASCII_CHARS_def)

lemma grid_row_length: "length (grid_row c options y) = sampleWidth c options"
  by (simp add: grid_row_def)

lemma grid_rows_length: "length (grid_rows c options) = sampleHeight c options"
  by (simp add: grid_rows_def)

lemma grid_row_no_newline:
  assumes "0 < the_charWidth options" and "0 < the_charHeight options"
  shows "newline \<notin> set (grid_row c options y)"
proof
  assume "newline \<in> set (grid_row c options y)"
  then obtain x where "newline = cell_glyph c options x y" by (auto simp add: grid_row_def)
  then have "newline \<in> set ASCII_CHARS" using cell_glyph_in_ramp [OF assms, of c x y] by simp
  then show False using newline_not_in_ramp by simp
qed

lemma text_block_terminated_lines:
  assumes "\<forall>l \<in> set ls. length l = cols \<and> newline \<notin> set l"
  shows "text_block (length ls) cols (terminated_lines ls)"
  using assms
proof (induction ls)
  case Nil
  show ?case by (simp add: terminated_lines_def)
next
  case (Cons l ls)
  then have l: "length l = cols" "newline \<notin> set l" by simp_all
  have t: "terminated_lines (l # ls) = l @ newline # terminated_lines ls"
    by (simp add: terminated_lines_def)
  have "text_block (length ls) cols (terminated_lines ls)" using Cons by simp
  then show ?case using l by (simp add: t nth_append)
qed

lemma terminated_lines_length:
  assumes "\<forall>l \<in> set ls. length l = cols"
  shows "length (terminated_lines ls) = length ls * (cols + 1)"
  using assms by (induction ls) (simp_all add: terminated_lines_def)

lemma terminated_lines_count:
  assumes "\<forall>l \<in> set ls. newline \<notin> set l"
  shows "count_list (terminated_lines ls) newline = length ls"
  using assms by (induction ls) (simp_all add: terminated_lines_def)

lemma terminated_lines_last:
  assumes "ls \<noteq> []"
  shows "last (terminated_lines ls) = newline"
proof -
  obtain ks k where "ls = ks @ [k]" using assms by (metis rev_exhaust)
  then show ?thesis by (simp add: terminated_lines_def)
qed

lemma grid_rows_block:
  assumes "0 < the_charWidth options" and "0 < the_charHeight options"
  shows "text_block (sampleHeight c options) (sampleWidth c options)
           (terminated_lines (grid_rows c options))"
proof -
  have "\<forall>l \<in> set (grid_rows c options). length l = sampleWidth c options \<and> newline \<notin> set l"
    using grid_row_no_newline [OF assms] by (auto simp add: grid_rows_def grid_row_length)
  then have "text_block (length (grid_rows c options)) (sampleWidth c options)
               (terminated_lines (grid_rows c options))"
    by (rule text_block_terminated_lines)
  then show ?thesis by (simp add: grid_rows_length)
qed

lemma renderASCII_empty_grid:
  assumes "sampleHeight c options = 0"
  shows "renderASCII c options = Inr ''''"
  using assms by (simp add: renderASCII_def y_loop.simps split: option.splits)

lemma terminated_grid_rows:
  "terminated_lines (grid_rows c options)
   = concat (map (\<lambda>y. map (\<lambda>x. cell_glyph c options x y) [0..<sampleWidth c options] @ [newline])
       [0..<sampleHeight c options])"
  by (simp add: terminated_lines_def grid_rows_def grid_row_def comp_def)

lemma pixel_outside:
  assumes "\<not> (u < width c \<and> v < height c)"
  shows "pixel_at (context_of c) u v = transparent_black"
  using assms by (auto simp add: pixel_at_def context_of_def)

subsection \<open>The settings of \<open>getOptimalSettings\<close>\<close>

lemma floor_scale_10: "nat \<lfloor>10 * ((of_nat m :: rat) / 1000)\<rfloor> = m div 100"
proof -
  have "10 * ((of_nat m :: rat) / 1000) = of_nat m / of_nat 100" by simp
  then have "\<lfloor>10 * ((of_nat m :: rat) / 1000)\<rfloor> = \<lfloor>(of_nat m :: rat) / of_nat 100\<rfloor>" by simp
  also have "\<dots> = int (m div 100)" by (rule floor_divide_of_nat_eq)
  finally show ?thesis by simp
qed

lemma floor_scale_14: "nat \<lfloor>14 * ((of_nat m :: rat) / 1000)\<rfloor> = (14 * m) div 1000"
proof -
  have "14 * ((of_nat m :: rat) / 1000) = of_nat (14 * m) / of_nat 1000" by simp
  then have "\<lfloor>14 * ((of_nat m :: rat) / 1000)\<rfloor> = \<lfloor>(of_nat (14 * m) :: rat) / of_nat 1000\<rfloor>"
    by simp
  also have "\<dots> = int ((14 * m) div 1000)" by (rule floor_divide_of_nat_eq)
  finally show ?thesis by simp
qed

lemma getOptimalSettings_fields:
  "the_charWidth (getOptimalSettings w h) = max 8 (max w h div 100)"
  "the_charHeight (getOptimalSettings w h) = max 12 ((14 * max w h) div 1000)"
  "the_maxWidth (getOptimalSettings w h) = w div 12"
  "the_maxHeight (getOptimalSettings w h) = h div 16"
  unfolding getOptimalSettings_def Let_def the_charWidth_def the_charHeight_def
    the_maxWidth_def the_maxHeight_def
  by (simp_all only: ASCIIRenderOptions.select_convs option.case floor_scale_10 floor_scale_14)

lemma div_ge_1: "0 < (k::nat) \<Longrightarrow> (1 \<le> n div k) = (k \<le> n)"
  by (simp add: Suc_le_eq div_greater_zero_iff)

subsection \<open>Evaluating blocks of one colour\<close>

lemma channel_numeral:
  "channel 0 = 0" "channel 6 = 6" "channel 9 = 9" "channel 85 = 85" "channel 128 = 128"
  "channel 140 = 140" "channel 255 = 255"
  by (simp_all add: channel_def)

lemma ramp_last: "(of_nat (length ASCII_CHARS - 1) :: rat) = 9"
  by (simp add: ASCII_CHARS_def)

lemma grey_r: "double_mul (5386305154335113 / 18014398509481984) 128 = 5386305154335113 / 140737488355328"
  unfolding double_mul_def by (rule to_double_evalI [where e = "5" and m = 5386305154335113]) simp_all

lemma grey_g: "double_mul (2643612981266481 / 4503599627370496) 128 = 2643612981266481 / 35184372088832"
  unfolding double_mul_def by (rule to_double_evalI [where e = "6" and m = 5287225962532962]) simp_all

lemma grey_b: "double_mul (8214565720323785 / 72057594037927936) 128 = 8214565720323785 / 562949953421312"
  unfolding double_mul_def by (rule to_double_evalI [where e = "3" and m = 8214565720323785]) simp_all

lemma grey_rg: "double_add (5386305154335113 / 140737488355328) (2643612981266481 / 35184372088832) = 3990189269850259 / 35184372088832"
  unfolding double_add_def by (rule to_double_tieI [where e = "6" and f = 7980378539700518]) simp_all

lemma grey_lum: "double_add (3990189269850259 / 35184372088832) (8214565720323785 / 562949953421312) = 9007199254740991 / 70368744177664"
  unfolding double_add_def by (rule to_double_evalI [where e = "6" and m = 9007199254740991]) simp_all

lemma grey_alpha: "double_div 255 255 = 1"
  unfolding double_div_def by (rule to_double_evalI [where e = "0" and m = 4503599627370496]) simp_all

lemma grey_w: "double_mul (9007199254740991 / 70368744177664) 1 = 9007199254740991 / 70368744177664"
  unfolding double_mul_def by (rule to_double_evalI [where e = "6" and m = 9007199254740991]) simp_all

lemma weighted_grey: "weighted grey = 9007199254740991 / 70368744177664"
  by (simp only: weighted_def luminance_def grey_def rgba.simps channel_numeral c299 c587 c114
      grey_r grey_g grey_b grey_rg grey_lum grey_alpha grey_w)

lemma leaf_r: "double_mul (5386305154335113 / 18014398509481984) 6 = 4039728865751335 / 2251799813685248"
  unfolding double_mul_def by (rule to_double_tieI [where e = "0" and f = 8079457731502669]) simp_all

lemma leaf_g: "double_mul (2643612981266481 / 4503599627370496) 140 = 5782903396520427 / 70368744177664"
  unfolding double_mul_def by (rule to_double_evalI [where e = "6" and m = 5782903396520427]) simp_all

lemma leaf_b: "double_mul (8214565720323785 / 72057594037927936) 9 = 4620693217682129 / 4503599627370496"
  unfolding double_mul_def by (rule to_double_evalI [where e = "0" and m = 4620693217682129]) simp_all

lemma leaf_rg: "double_add (4039728865751335 / 2251799813685248) (5782903396520427 / 70368744177664) = 1477286230893789 / 17592186044416"
  unfolding double_add_def by (rule to_double_evalI [where e = "6" and m = 5909144923575156]) simp_all

lemma leaf_lum: "double_add (1477286230893789 / 17592186044416) (4620693217682129 / 4503599627370496) = 5981343255101439 / 70368744177664"
  unfolding double_add_def by (rule to_double_evalI [where e = "6" and m = 5981343255101439]) simp_all

lemma leaf_alpha: "double_div 255 255 = 1"
  unfolding double_div_def by (rule to_double_evalI [where e = "0" and m = 4503599627370496]) simp_all

lemma leaf_w: "double_mul (5981343255101439 / 70368744177664) 1 = 5981343255101439 / 70368744177664"
  unfolding double_mul_def by (rule to_double_evalI [where e = "6" and m = 5981343255101439]) simp_all

lemma weighted_leaf: "weighted leaf = 5981343255101439 / 70368744177664"
  by (simp only: weighted_def luminance_def leaf_def rgba.simps channel_numeral c299 c587 c114
      leaf_r leaf_g leaf_b leaf_rg leaf_lum leaf_alpha leaf_w)

lemma slate_r: "double_mul (5386305154335113 / 18014398509481984) 85 = 3576843266550661 / 140737488355328"
  unfolding double_mul_def by (rule to_double_evalI [where e = "4" and m = 7153686533101322]) simp_all

lemma slate_g: "double_mul (2643612981266481 / 4503599627370496) 85 = 3511048490744545 / 70368744177664"
  unfolding double_mul_def by (rule to_double_evalI [where e = "5" and m = 7022096981489090]) simp_all

lemma slate_b: "double_mul (8214565720323785 / 72057594037927936) 85 = 5454985048652513 / 562949953421312"
  unfolding double_mul_def by (rule to_double_evalI [where e = "3" and m = 5454985048652513]) simp_all

lemma slate_rg: "double_add (3576843266550661 / 140737488355328) (3511048490744545 / 70368744177664) = 1324867531004969 / 17592186044416"
  unfolding double_add_def by (rule to_double_tieI [where e = "6" and f = 5299470124019875]) simp_all

lemma slate_lum: "double_add (1324867531004969 / 17592186044416) (5454985048652513 / 562949953421312) = 85"
  unfolding double_add_def by (rule to_double_evalI [where e = "6" and m = 5981343255101440]) simp_all

lemma slate_alpha: "double_div 255 255 = 1"
  unfolding double_div_def by (rule to_double_evalI [where e = "0" and m = 4503599627370496]) simp_all

lemma slate_w: "double_mul 85 1 = 85"
  unfolding double_mul_def by (rule to_double_evalI [where e = "6" and m = 5981343255101440]) simp_all

lemma weighted_slate: "weighted slate = 85"
  by (simp only: weighted_def luminance_def slate_def rgba.simps channel_numeral c299 c587 c114
      slate_r slate_g slate_b slate_rg slate_lum slate_alpha slate_w)

lemma grey_sum1: "double_add 0 (9007199254740991 / 70368744177664) = 9007199254740991 / 70368744177664"
  unfolding double_add_def by (rule to_double_evalI [where e = "6" and m = 9007199254740991]) simp_all

lemma grey_sum2: "double_add (9007199254740991 / 70368744177664) (9007199254740991 / 70368744177664) = 9007199254740991 / 35184372088832"
  unfolding double_add_def by (rule to_double_evalI [where e = "7" and m = 9007199254740991]) simp_all

lemma grey_sum3: "double_add (9007199254740991 / 35184372088832) (9007199254740991 / 70368744177664) = 6755399441055743 / 17592186044416"
  unfolding double_add_def by (rule to_double_evalI [where e = "8" and m = 6755399441055743]) simp_all

lemma grey_sum4: "double_add (6755399441055743 / 17592186044416) (9007199254740991 / 70368744177664) = 9007199254740991 / 17592186044416"
  unfolding double_add_def by (rule to_double_evalI [where e = "8" and m = 9007199254740991]) simp_all

lemma leaf_sum1: "double_add 0 (5981343255101439 / 70368744177664) = 5981343255101439 / 70368744177664"
  unfolding double_add_def by (rule to_double_evalI [where e = "6" and m = 5981343255101439]) simp_all

lemma slate_sum1: "double_add 0 85 = 85"
  unfolding double_add_def by (rule to_double_evalI [where e = "6" and m = 5981343255101440]) simp_all

lemma cells_1x1: "double_mul 1 1 = 1"
  unfolding double_mul_def by (rule to_double_evalI [where e = "0" and m = 4503599627370496]) simp_all

lemma divisor_1x1: "double_mul 1 255 = 255"
  unfolding double_mul_def by (rule to_double_evalI [where e = "7" and m = 8972014882652160]) simp_all

lemma cells_2x2: "double_mul 2 2 = 4"
  unfolding double_mul_def by (rule to_double_evalI [where e = "2" and m = 4503599627370496]) simp_all

lemma divisor_2x2: "double_mul 4 255 = 1020"
  unfolding double_mul_def by (rule to_double_evalI [where e = "9" and m = 8972014882652160]) simp_all

lemma grey1_brightness: "double_div (9007199254740991 / 70368744177664) 255 = 282578800148737 / 562949953421312"
  unfolding double_div_def by (rule to_double_evalI [where e = "-1" and m = 4521260802379792]) simp_all

lemma grey1_scaled: "double_mul (282578800148737 / 562949953421312) 9 = 2543209201338633 / 562949953421312"
  unfolding double_mul_def by (rule to_double_evalI [where e = "2" and m = 5086418402677266]) simp_all

lemma grey1_floor: "\<lfloor>2543209201338633 / 562949953421312 :: rat\<rfloor> = 4"
  by (simp add: floor_eq_iff)

lemma grey4_brightness: "double_div (9007199254740991 / 17592186044416) 1020 = 282578800148737 / 562949953421312"
  unfolding double_div_def by (rule to_double_evalI [where e = "-1" and m = 4521260802379792]) simp_all

lemma grey4_scaled: "double_mul (282578800148737 / 562949953421312) 9 = 2543209201338633 / 562949953421312"
  unfolding double_mul_def by (rule to_double_evalI [where e = "2" and m = 5086418402677266]) simp_all

lemma grey4_floor: "\<lfloor>2543209201338633 / 562949953421312 :: rat\<rfloor> = 4"
  by (simp add: floor_eq_iff)

lemma leaf1_brightness: "double_div (5981343255101439 / 70368744177664) 255 = 1501199875790165 / 4503599627370496"
  unfolding double_div_def by (rule to_double_evalI [where e = "-2" and m = 6004799503160660]) simp_all

lemma leaf1_scaled: "double_mul (1501199875790165 / 4503599627370496) 9 = 3377699720527871 / 1125899906842624"
  unfolding double_mul_def by (rule to_double_tieI [where e = "1" and f = 6755399441055742]) simp_all

lemma leaf1_floor: "\<lfloor>3377699720527871 / 1125899906842624 :: rat\<rfloor> = 2"
  by (simp add: floor_eq_iff)

lemma slate1_brightness: "double_div 85 255 = 6004799503160661 / 18014398509481984"
  unfolding double_div_def by (rule to_double_evalI [where e = "-2" and m = 6004799503160661]) simp_all

lemma slate1_scaled: "double_mul (6004799503160661 / 18014398509481984) 9 = 3"
  unfolding double_mul_def by (rule to_double_evalI [where e = "1" and m = 6755399441055744]) simp_all

lemma slate1_floor: "\<lfloor>3 :: rat\<rfloor> = 3"
  by (simp add: floor_eq_iff)


lemma block_brightness_1x1:
  assumes "the_charWidth options = 1" and "the_charHeight options = 1"
  shows "block_brightness options [p] = double_div (double_add 0 (weighted p)) 255"
  by (simp only: block_brightness_def assms accumulate.simps of_nat_1 cells_1x1 divisor_1x1)

lemma block_brightness_2x2:
  assumes "the_charWidth options = 2" and "the_charHeight options = 2"
  shows "block_brightness options [p, p, p, p]
         = double_div (double_add (double_add (double_add (double_add 0 (weighted p)) (weighted p))
             (weighted p)) (weighted p)) 1020"
  by (simp only: block_brightness_def assms accumulate.simps of_nat_numeral cells_2x2 divisor_2x2)

lemma grey_1x1:
  assumes "the_charWidth options = 1" and "the_charHeight options = 1"
  shows "block_brightness options [grey] = 282578800148737 / 562949953421312"
    and "charIndex (block_brightness options [grey]) = 4"
  by (simp_all only: block_brightness_1x1 [OF assms] charIndex_def ramp_last weighted_grey
      grey_sum1 grey1_brightness grey1_scaled grey1_floor)

lemma grey_2x2:
  assumes "the_charWidth options = 2" and "the_charHeight options = 2"
  shows "block_brightness options [grey, grey, grey, grey] = 282578800148737 / 562949953421312"
    and "charIndex (block_brightness options [grey, grey, grey, grey]) = 4"
  by (simp_all only: block_brightness_2x2 [OF assms] charIndex_def ramp_last weighted_grey
      grey_sum1 grey_sum2 grey_sum3 grey_sum4 grey4_brightness grey4_scaled grey4_floor)

lemma leaf_1x1:
  assumes "the_charWidth options = 1" and "the_charHeight options = 1"
  shows "block_brightness options [leaf] = 1501199875790165 / 4503599627370496"
    and "charIndex (block_brightness options [leaf]) = 2"
  by (simp_all only: block_brightness_1x1 [OF assms] charIndex_def ramp_last weighted_leaf
      leaf_sum1 leaf1_brightness leaf1_scaled leaf1_floor)

lemma slate_1x1:
  assumes "the_charWidth options = 1" and "the_charHeight options = 1"
  shows "block_brightness options [slate] = 6004799503160661 / 18014398509481984"
    and "charIndex (block_brightness options [slate]) = 3"
  by (simp_all only: block_brightness_1x1 [OF assms] charIndex_def ramp_last weighted_slate
      slate_sum1 slate1_brightness slate1_scaled slate1_floor)

subsection \<open>Frames of one colour\<close>

lemma read_block_uniform:
  assumes "\<forall>u < width c. \<forall>v < height c. pixels c u v = p"
    and "sx + sw \<le> width c" and "sy + sh \<le> height c"
  shows "read_block (context_of c) sx sy sw sh = replicate (sw * sh) p"
proof -
  have "\<forall>q \<in> set (read_block (context_of c) sx sy sw sh). q = p"
    using assms by (auto simp add: read_block_def pixel_at_def context_of_def)
  then have "replicate (length (read_block (context_of c) sx sy sw sh)) p
      = read_block (context_of c) sx sy sw sh"
    by (rule replicate_length_same)
  then show ?thesis by (simp add: read_block_length)
qed

lemma uniform_cell_brightness:
  assumes "\<forall>u < width c. \<forall>v < height c. pixels c u v = p"
    and "0 < the_charWidth options" and "0 < the_charHeight options"
    and "x < sampleWidth c options" and "y < sampleHeight c options"
  shows "cell_brightness c options x y
         = block_brightness options (replicate (the_charWidth options * the_charHeight options) p)"
proof -
  have px: "pixelX c options x + the_charWidth options \<le> width c"
    using assms(2,4) unfolding pixelX_def sampleWidth_def by (rule anchor_in_frame)
  have py: "pixelY c options y + the_charHeight options \<le> height c"
    using assms(3,5) unfolding pixelY_def sampleHeight_def by (rule anchor_in_frame)
  show ?thesis
    unfolding cell_brightness_def by (simp only: read_block_uniform [OF assms(1) px py])
qed

lemma map_upt_const:
  assumes "\<forall>i < n. f i = v"
  shows "map f [0..<n] = replicate n v"
proof -
  have "map f [0..<n] = map (\<lambda>i. v) [0..<n]" using assms by (intro map_cong) simp_all
  then show ?thesis by (simp add: map_replicate_const)
qed

lemma uniform_grid_rows:
  assumes "\<forall>u < width c. \<forall>v < height c. pixels c u v = p"
    and "0 < the_charWidth options" and "0 < the_charHeight options"
  shows "grid_rows c options
         = replicate (sampleHeight c options)
             (replicate (sampleWidth c options)
                (ASCII_CHARS ! nat (charIndex (block_brightness options
                   (replicate (the_charWidth options * the_charHeight options) p)))))"
proof -
  let ?g = "ASCII_CHARS ! nat (charIndex (block_brightness options
                   (replicate (the_charWidth options * the_charHeight options) p)))"
  have row: "\<forall>y < sampleHeight c options. grid_row c options y = replicate (sampleWidth c options) ?g"
  proof (intro allI impI)
    fix y assume y: "y < sampleHeight c options"
    have "\<forall>x < sampleWidth c options. cell_glyph c options x y = ?g"
    proof (intro allI impI)
      fix x assume x: "x < sampleWidth c options"
      show "cell_glyph c options x y = ?g"
        by (simp only: cell_glyph_def uniform_cell_brightness [OF assms x y])
    qed
    then show "grid_row c options y = replicate (sampleWidth c options) ?g"
      unfolding grid_row_def by (rule map_upt_const)
  qed
  show ?thesis unfolding grid_rows_def using row by (rule map_upt_const)
qed

lemma renderASCII_uniform:
  assumes "readable c" and "0 < the_charWidth options" and "0 < the_charHeight options"
    and "\<forall>u < width c. \<forall>v < height c. pixels c u v = p"
  shows "renderASCII c options
         = Inr (terminated_lines (replicate (sampleHeight c options)
             (replicate (sampleWidth c options)
                (ASCII_CHARS ! nat (charIndex (block_brightness options
                   (replicate (the_charWidth options * the_charHeight options) p)))))))"
  using renderASCII_grid [OF assms(1,2,3)] uniform_grid_rows [OF assms(4,2,3)] by simp

lemma uniform_canvas_pixels:
  "\<forall>u < width (uniform_canvas w h p). \<forall>v < height (uniform_canvas w h p).
     pixels (uniform_canvas w h p) u v = p"
  by (simp add: uniform_canvas_def)

lemmas grid_eval =
  sampleWidth_def sampleHeight_def sample_extent_def options_of_def uniform_canvas_def
  the_charWidth_def the_charHeight_def the_maxWidth_def the_maxHeight_def pixelX_def pixelY_def

lemma ramp_4: "ASCII_CHARS ! nat 4 = CHR ''+''"
  by (simp add: ASCII_CHARS_def)


lemma weighted_transparent_black: "weighted transparent_black = 0"
  by (simp add: weighted_def luminance_def transparent_black_def channel_numeral double_mul_def
      double_add_def to_double_0)






subsection \<open>The throttle\<close>














subsection \<open>The brightness of a cell: the rounded formula, and two cells of one pixel\<close>

lemma accumulate_foldl:
  "accumulate data b = foldl (\<lambda>s p. double_add s (weighted p)) b data"
  by (induction data arbitrary: b) simp_all

lemma read_block_indexed:
  "read_block ctx sx sy sw sh
   = map (\<lambda>(i, j). pixel_at ctx (sx + i) (sy + j))
       (concat (map (\<lambda>j. map (\<lambda>i. (i, j)) [0..<sw]) [0..<sh]))"
  by (simp add: read_block_def map_concat comp_def)

lemma cell_brightness_rounded:
  "cell_brightness c options x y
   = rounded_brightness (context_of c) (pixelX c options x) (pixelY c options y)
       (the_charWidth options) (the_charHeight options)"
  by (simp add: cell_brightness_def block_brightness_def accumulate_foldl read_block_indexed
      foldl_map rounded_brightness_def weighted_def luminance_def case_prod_unfold)

lemma single_cell:
  assumes "the_charWidth options = 1" and "the_charHeight options = 1"
    and "0 < sampleWidth (uniform_canvas 1 1 p) options"
    and "0 < sampleHeight (uniform_canvas 1 1 p) options"
  shows "cell_brightness (uniform_canvas 1 1 p) options 0 0 = block_brightness options [p]"
proof -
  have "cell_brightness (uniform_canvas 1 1 p) options 0 0
      = block_brightness options (replicate (the_charWidth options * the_charHeight options) p)"
    using uniform_canvas_pixels assms(3,4) by (intro uniform_cell_brightness) (simp_all add: assms)
  then show ?thesis by (simp add: assms)
qed

lemma spec_brightness_single:
  "spec_brightness (context_of (uniform_canvas 1 1 p)) 0 0 1 1
   = (0.299 * channel (red p) + 0.587 * channel (green p) + 0.114 * channel (blue p))
     * (channel (alpha p) / 255) / 255"
  by (simp add: spec_brightness_def pixel_at_def context_of_def uniform_canvas_def)

lemma ramp_2: "ASCII_CHARS ! nat 2 = CHR ''#''"
  by (simp add: ASCII_CHARS_def)

lemma ramp_3: "ASCII_CHARS ! nat 3 = CHR ''*''"
  by (simp add: ASCII_CHARS_def)

lemma leaf_cell:
  "cell_brightness (uniform_canvas 1 1 leaf) (options_of 1 1 1 1) 0 0
     = 1501199875790165 / 4503599627370496"
  "charIndex (cell_brightness (uniform_canvas 1 1 leaf) (options_of 1 1 1 1) 0 0) = 2"
  "spec_brightness (context_of (uniform_canvas 1 1 leaf)) 0 0 1 1 = 1 / 3"
proof -
  let ?o = "options_of 1 1 1 1"
  have d: "the_charWidth ?o = 1" "the_charHeight ?o = 1"
    by (simp_all add: options_of_def the_charWidth_def the_charHeight_def)
  have g: "0 < sampleWidth (uniform_canvas 1 1 leaf) ?o" "0 < sampleHeight (uniform_canvas 1 1 leaf) ?o"
    by (simp_all add: grid_eval)
  have c: "cell_brightness (uniform_canvas 1 1 leaf) ?o 0 0 = block_brightness ?o [leaf]"
    using d g by (rule single_cell)
  show "cell_brightness (uniform_canvas 1 1 leaf) ?o 0 0 = 1501199875790165 / 4503599627370496"
    by (simp only: c leaf_1x1(1) [OF d])
  show "charIndex (cell_brightness (uniform_canvas 1 1 leaf) ?o 0 0) = 2"
    by (simp only: c leaf_1x1(2) [OF d])
  show "spec_brightness (context_of (uniform_canvas 1 1 leaf)) 0 0 1 1 = 1 / 3"
    by (subst spec_brightness_single) (simp add: leaf_def channel_numeral)
qed

lemma slate_cell:
  "cell_brightness (uniform_canvas 1 1 slate) (options_of 1 1 1 1) 0 0
     = 6004799503160661 / 18014398509481984"
  "charIndex (cell_brightness (uniform_canvas 1 1 slate) (options_of 1 1 1 1) 0 0) = 3"
  "spec_brightness (context_of (uniform_canvas 1 1 slate)) 0 0 1 1 = 1 / 3"
proof -
  let ?o = "options_of 1 1 1 1"
  have d: "the_charWidth ?o = 1" "the_charHeight ?o = 1"
    by (simp_all add: options_of_def the_charWidth_def the_charHeight_def)
  have g: "0 < sampleWidth (uniform_canvas 1 1 slate) ?o" "0 < sampleHeight (uniform_canvas 1 1 slate) ?o"
    by (simp_all add: grid_eval)
  have c: "cell_brightness (uniform_canvas 1 1 slate) ?o 0 0 = block_brightness ?o [slate]"
    using d g by (rule single_cell)
  show "cell_brightness (uniform_canvas 1 1 slate) ?o 0 0 = 6004799503160661 / 18014398509481984"
    by (simp only: c slate_1x1(1) [OF d])
  show "charIndex (cell_brightness (uniform_canvas 1 1 slate) ?o 0 0) = 3"
    by (simp only: c slate_1x1(2) [OF d])
  show "spec_brightness (context_of (uniform_canvas 1 1 slate)) 0 0 1 1 = 1 / 3"
    by (subst spec_brightness_single) (simp add: slate_def channel_numeral)
qed

lemma render_cell_index:
  assumes "0 < the_charWidth options" and "0 < the_charHeight options"
  shows "render_cell c (context_of c) options x y
         = Inr [ASCII_CHARS ! nat (charIndex (cell_brightness c options x y))]"
  using render_cell_glyph [OF assms, of c x y] by (simp add: cell_glyph_def)

lemma charIndex_mono:
  assumes "0 \<le> b1" and "b1 \<le> b2"
  shows "charIndex b1 \<le> charIndex b2"
proof -
  have "to_double (b1 * 9) \<le> to_double (b2 * 9)" using assms by (intro to_double_mono) simp_all
  then show ?thesis by (simp add: charIndex_def double_mul_def ASCII_CHARS_def floor_mono)
qed

subsection \<open>The rounded brightness against the exact formula\<close>

text \<open>
  Each operation rounds a result of magnitude at most \<open>M\<close> with an error of at most
  \<open>M / 2 ^ 53\<close>. For a block of \<open>n\<close> pixels with \<open>255 n < 2 ^ 53\<close> the errors
  add up to at most \<open>(n + 14) / 2 ^ 53\<close> in the brightness.
\<close>

lemma round_even_half: "\<bar>of_int (round_even y) - y\<bar> \<le> 1 / 2"
proof -
  have "of_int \<lfloor>y\<rfloor> \<le> y" "y < of_int \<lfloor>y\<rfloor> + 1" by linarith+
  then show ?thesis unfolding round_even_def Let_def by (auto simp add: abs_le_iff)
qed

lemma to_double_error:
  assumes "0 \<le> x" and "x \<le> M"
  shows "\<bar>to_double x - x\<bar> \<le> M / 2 ^ 53"
proof (cases "x = 0")
  case True
  then show ?thesis using assms by (simp add: to_double_0)
next
  case False
  then have x: "0 < x" using assms by simp
  let ?q = "(2::rat) powi (exponent_of x - 52)"
  let ?y = "x / ?q"
  have q: "0 < ?q" by simp
  have "to_double x - x = (of_int (round_even ?y) - ?y) * ?q"
    by (simp add: to_double_pos_eq [OF x] algebra_simps)
  then have "\<bar>to_double x - x\<bar> = \<bar>of_int (round_even ?y) - ?y\<bar> * ?q"
    using q by (simp add: abs_mult)
  also have "\<dots> \<le> 1 / 2 * ?q" using round_even_half [of ?y] q by (intro mult_right_mono) simp_all
  also have "\<dots> = 2 powi exponent_of x / 2 ^ 53" by (simp add: power_int_diff)
  also have "\<dots> \<le> x / 2 ^ 53" using exponent_of_spec [OF x] by (simp add: divide_right_mono)
  also have "\<dots> \<le> M / 2 ^ 53" using assms(2) by (simp add: divide_right_mono)
  finally show ?thesis .
qed


lemma weight_facts:
  "\<bar>to_double 0.299 - 0.299\<bar> \<le> 1 / 2 ^ 53" "0 \<le> to_double 0.299" "to_double 0.299 \<le> 1"
  "\<bar>to_double 0.587 - 0.587\<bar> \<le> 1 / 2 ^ 53" "0 \<le> to_double 0.587" "to_double 0.587 \<le> 1"
  "\<bar>to_double 0.114 - 0.114\<bar> \<le> 1 / 2 ^ 53" "0 \<le> to_double 0.114" "to_double 0.114 \<le> 1"
  by (simp_all only: c299 c587 c114) simp_all

text \<open>A weight times a channel: within \<open>510 / 2 ^ 53\<close> of the exact product.\<close>

lemma weighted_channel_error:
  assumes "\<bar>w' - w\<bar> \<le> 1 / 2 ^ 53" and "0 \<le> w'" and "w' \<le> 1" and "0 \<le> v" and "v \<le> 255"
  shows "\<bar>double_mul w' v - w * v\<bar> \<le> 510 / 2 ^ 53"
    and "0 \<le> double_mul w' v" and "double_mul w' v \<le> 255"
proof -
  have p0: "0 \<le> w' * v" using assms by simp
  have "w' * v \<le> 1 * 255" using assms by (intro mult_mono) simp_all
  then have p1: "w' * v \<le> 255" by simp
  have a: "\<bar>to_double (w' * v) - w' * v\<bar> \<le> 255 / 2 ^ 53" using p0 p1 by (rule to_double_error)
  have "\<bar>w' * v - w * v\<bar> = \<bar>w' - w\<bar> * v" using assms(4) by (simp add: abs_mult left_diff_distrib [symmetric])
  also have "\<dots> \<le> 1 / 2 ^ 53 * 255" using assms(1,4,5) by (intro mult_mono) simp_all
  finally have b: "\<bar>w' * v - w * v\<bar> \<le> 255 / 2 ^ 53" by simp
  show "\<bar>double_mul w' v - w * v\<bar> \<le> 510 / 2 ^ 53"
    unfolding double_mul_def using a b by linarith
  show "0 \<le> double_mul w' v" unfolding double_mul_def using p0 by (rule to_double_nonneg)
  have "to_double (w' * v) \<le> to_double 255" using p0 p1 by (rule to_double_mono)
  then show "double_mul w' v \<le> 255" by (simp add: double_mul_def to_double_255)
qed

lemma to_double_510: "to_double 510 = 510"
  using to_double_of_nat [of 510] by simp

lemma luminance_error:
  "\<bar>luminance p - (0.299 * channel (red p) + 0.587 * channel (green p) + 0.114 * channel (blue p))\<bar>
   \<le> 2805 / 2 ^ 53"
proof -
  let ?r = "channel (red p)" and ?g = "channel (green p)" and ?b = "channel (blue p)"
  let ?mr = "double_mul (to_double 0.299) ?r"
  let ?mg = "double_mul (to_double 0.587) ?g"
  let ?mb = "double_mul (to_double 0.114) ?b"
  have r: "0 \<le> ?r" "?r \<le> 255" and g: "0 \<le> ?g" "?g \<le> 255" and b: "0 \<le> ?b" "?b \<le> 255"
    using channel_bounds [of "red p"] channel_bounds [of "green p"] channel_bounds [of "blue p"]
    by simp_all
  note er = weighted_channel_error [OF weight_facts(1,2,3) r]
  note eg = weighted_channel_error [OF weight_facts(4,5,6) g]
  note eb = weighted_channel_error [OF weight_facts(7,8,9) b]
  have s0: "0 \<le> ?mr + ?mg" "?mr + ?mg \<le> 510" using er(2,3) eg(2,3) by simp_all
  have e1: "\<bar>double_add ?mr ?mg - (?mr + ?mg)\<bar> \<le> 510 / 2 ^ 53"
    unfolding double_add_def using s0 by (rule to_double_error)
  have "to_double (?mr + ?mg) \<le> to_double 510" using s0 by (rule to_double_mono)
  then have s1: "double_add ?mr ?mg \<le> 510" by (simp add: double_add_def to_double_510)
  have s2: "0 \<le> double_add ?mr ?mg" using er(2) eg(2) by (rule double_add_nonneg)
  have t0: "0 \<le> double_add ?mr ?mg + ?mb" "double_add ?mr ?mg + ?mb \<le> 765"
    using s1 s2 eb(2,3) by simp_all
  have e2: "\<bar>double_add (double_add ?mr ?mg) ?mb - (double_add ?mr ?mg + ?mb)\<bar> \<le> 765 / 2 ^ 53"
    unfolding double_add_def [of "double_add ?mr ?mg"] using t0 by (rule to_double_error)
  have "\<bar>double_add (double_add ?mr ?mg) ?mb - (0.299 * ?r + 0.587 * ?g + 0.114 * ?b)\<bar>
      \<le> 2805 / 2 ^ 53"
    using e1 e2 er(1) eg(1) eb(1) by linarith
  then show ?thesis by (simp only: luminance_def)
qed

lemma abs_chain:
  "\<bar>a - b\<bar> \<le> x \<Longrightarrow> \<bar>b - c\<bar> \<le> y \<Longrightarrow> x + y \<le> z \<Longrightarrow> \<bar>a - c\<bar> \<le> z" for a :: rat
  by linarith

lemma product_difference: "l * f - L * A = (l - L) * f + L * (f - A)" for l :: rat
  by (simp add: algebra_simps)

lemma weighted_error: "\<bar>weighted p - exact_term p\<bar> \<le> 3315 / 2 ^ 53"
proof -
  let ?L = "0.299 * channel (red p) + 0.587 * channel (green p) + 0.114 * channel (blue p)"
  let ?A = "channel (alpha p) / 255"
  let ?l = "luminance p" and ?f = "double_div (channel (alpha p)) 255"
  have l: "0 \<le> ?l" "?l \<le> 255" using luminance_bounds [of p] by simp_all
  have f: "0 \<le> ?f" "?f \<le> 1" using alpha_factor_bounds [of "alpha p"] by simp_all
  have A: "0 \<le> ?A" "?A \<le> 1" using channel_bounds [of "alpha p"] by simp_all
  have L: "0 \<le> ?L" "?L \<le> 255"
    using channel_bounds [of "red p"] channel_bounds [of "green p"] channel_bounds [of "blue p"]
    by simp_all
  have eL: "\<bar>?l - ?L\<bar> \<le> 2805 / 2 ^ 53" by (rule luminance_error)
  have eA: "\<bar>?f - ?A\<bar> \<le> 1 / 2 ^ 53"
    unfolding double_div_def using A by (rule to_double_error)
  have p0: "0 \<le> ?l * ?f" using l f by simp
  have "?l * ?f \<le> 255 * 1" using l f by (intro mult_mono) simp_all
  then have p1: "?l * ?f \<le> 255" by simp
  have e1: "\<bar>weighted p - ?l * ?f\<bar> \<le> 255 / 2 ^ 53"
    unfolding weighted_def double_mul_def using p0 p1 by (rule to_double_error)
  have "?l * ?f - ?L * ?A = (?l - ?L) * ?f + ?L * (?f - ?A)" by (rule product_difference)
  then have "\<bar>?l * ?f - ?L * ?A\<bar> \<le> \<bar>(?l - ?L) * ?f\<bar> + \<bar>?L * (?f - ?A)\<bar>"
    by (simp only: abs_triangle_ineq)
  also have "\<dots> = \<bar>?l - ?L\<bar> * ?f + ?L * \<bar>?f - ?A\<bar>"
    using f(1) L(1) by (simp add: abs_mult)
  also have "\<dots> \<le> 2805 / 2 ^ 53 * 1 + 255 * (1 / 2 ^ 53)"
    using eL eA f L by (intro add_mono mult_mono) simp_all
  finally have e2: "\<bar>?l * ?f - ?L * ?A\<bar> \<le> 3060 / 2 ^ 53" by simp
  have "\<bar>weighted p - ?L * ?A\<bar> \<le> 3315 / 2 ^ 53" using e1 e2 by (rule abs_chain) simp
  then show ?thesis by (simp only: exact_term_def)
qed


lemma sum_list_rows: "sum_list (concat xss) = sum_list (map sum_list xss)" for xss :: "rat list list"
  by (induction xss) simp_all

lemma abs_add_bound:
  "\<bar>a - b\<bar> \<le> x \<Longrightarrow> \<bar>c - d\<bar> \<le> y \<Longrightarrow> \<bar>(a + c) - (b + d)\<bar> \<le> x + y" for a :: rat
  by linarith

lemma spec_brightness_sum_list:
  "spec_brightness ctx px py cw ch
   = sum_list (map exact_term (read_block ctx px py cw ch)) / (of_nat cw * of_nat ch * 255)"
  by (simp add: spec_brightness_def read_block_def exact_term_def map_concat comp_def
      sum_list_rows interv_sum_list_conv_sum_set_nat atLeast0LessThan)

lemma sum_list_error:
  "\<bar>sum_list (map weighted data) - sum_list (map exact_term data)\<bar>
   \<le> of_nat (length data) * (3315 / 2 ^ 53)"
proof (induction data)
  case Nil
  then show ?case by simp
next
  case (Cons p data)
  have "\<bar>weighted p - exact_term p\<bar> \<le> 3315 / 2 ^ 53" by (rule weighted_error)
  then have "\<bar>(weighted p + sum_list (map weighted data))
       - (exact_term p + sum_list (map exact_term data))\<bar>
      \<le> 3315 / 2 ^ 53 + of_nat (length data) * (3315 / 2 ^ 53)"
    using Cons.IH by (rule abs_add_bound)
  then show ?case by (simp add: algebra_simps)
qed

lemma accumulate_error:
  assumes "255 * N < (2::nat) ^ 53" and "length data \<le> N"
    and "0 \<le> b" and "b \<le> 255 * of_nat (N - length data)"
  shows "\<bar>accumulate data b - (b + sum_list (map weighted data))\<bar>
         \<le> of_nat (length data) * (255 * of_nat N / 2 ^ 53)"
  using assms(2,3,4)
proof (induction data arbitrary: b)
  case Nil
  then show ?case by simp
next
  case (Cons p data)
  let ?E = "255 * of_nat N / (2::rat) ^ 53"
  let ?b = "double_add b (weighted p)"
  have w: "0 \<le> weighted p" "weighted p \<le> 255" using weighted_bounds [of p] by simp_all
  have len: "length data < N" using Cons.prems(1) by simp
  have "of_nat (N - length (p # data)) + (1::rat) = of_nat (N - length data)"
    using len by (simp add: of_nat_diff)
  then have step: "255 * of_nat (N - length (p # data)) + (255::rat) = 255 * of_nat (N - length data)"
    by (simp add: algebra_simps)
  have s0: "0 \<le> b + weighted p" using Cons.prems(2) w(1) by simp
  have s1: "b + weighted p \<le> 255 * of_nat (N - length data)"
    using Cons.prems(3) w(2) step by linarith
  have "(of_nat (N - length data) :: rat) \<le> of_nat N" by simp
  then have s2: "b + weighted p \<le> 255 * of_nat N" using s1 by linarith
  have e1: "\<bar>?b - (b + weighted p)\<bar> \<le> ?E"
    unfolding double_add_def using s0 s2 by (rule to_double_error)
  have "255 * (N - length data) \<le> 255 * N" by simp
  then have "255 * (N - length data) < 2 ^ 53" using assms(1) by linarith
  then have rep: "to_double (of_nat (255 * (N - length data))) = of_nat (255 * (N - length data))"
    by (rule to_double_of_nat)
  have "to_double (b + weighted p) \<le> to_double (255 * of_nat (N - length data))"
    using s0 s1 by (rule to_double_mono)
  then have b1: "?b \<le> 255 * of_nat (N - length data)"
    using rep by (simp add: double_add_def)
  have b0: "0 \<le> ?b" using Cons.prems(2) w(1) by (rule double_add_nonneg)
  have "length data \<le> N" using len by simp
  then have ih: "\<bar>accumulate data ?b - (?b + sum_list (map weighted data))\<bar>
      \<le> of_nat (length data) * ?E"
    using b0 b1 by (rule Cons.IH)
  have "\<bar>accumulate data ?b - (b + weighted p + sum_list (map weighted data))\<bar>
      \<le> of_nat (length data) * ?E + ?E"
    using ih e1 by linarith
  then show ?case by (simp add: algebra_simps)
qed


lemma scaled_error:
  fixes s :: rat
  assumes "\<bar>s - t\<bar> \<le> d * e" and "0 < d"
  shows "\<bar>s / d - t / d\<bar> \<le> e"
proof -
  have "\<bar>s / d - t / d\<bar> = \<bar>s - t\<bar> / d"
    using assms(2) by (simp add: diff_divide_distrib [symmetric])
  also have "\<dots> \<le> e" using assms by (simp add: pos_divide_le_eq mult.commute)
  finally show ?thesis .
qed

lemma error_budget:
  "n * (255 * n / 2 ^ 53) + n * (3315 / 2 ^ 53) = n * 255 * ((n + 13) / 2 ^ 53)" for n :: rat
  by (simp add: algebra_simps)

lemma block_brightness_error:
  assumes "0 < the_charWidth options" and "0 < the_charHeight options"
    and "length data = the_charWidth options * the_charHeight options"
    and "the_charWidth options * the_charHeight options * 255 < 2 ^ 53"
  shows "\<bar>block_brightness options data
          - sum_list (map exact_term data)
            / (of_nat (the_charWidth options) * of_nat (the_charHeight options) * 255)\<bar>
         \<le> (of_nat (the_charWidth options * the_charHeight options) + 14) / 2 ^ 53"
proof -
  define n where "n = the_charWidth options * the_charHeight options"
  define S where "S = accumulate data 0"
  define T where "T = sum_list (map exact_term data)"
  define D :: rat where "D = of_nat n * 255"
  have n0: "0 < n" using assms(1,2) by (simp add: n_def)
  have len: "length data = n" using assms(3) by (simp add: n_def)
  have small: "255 * n < 2 ^ 53" using assms(4) by (simp add: n_def mult.commute)
  have D0: "0 < D" using n0 by (simp add: D_def)
  have div: "double_mul (double_mul (of_nat (the_charWidth options))
               (of_nat (the_charHeight options))) 255 = D"
    using divisor_exact [OF assms(4)] by (simp add: D_def n_def)
  have bb: "block_brightness options data = to_double (S / D)"
    by (simp add: block_brightness_def div S_def double_div_def)
  have S0: "0 \<le> S" unfolding S_def by (rule accumulate_nonneg) simp
  have "accumulate data 0 \<le> 255 * of_nat (0 + length data)"
    using small by (intro accumulate_le_exact) (simp_all add: len)
  then have S1: "S \<le> D" by (simp add: S_def D_def len mult.commute)
  have q0: "0 \<le> S / D" using S0 D0 by simp
  have q1: "S / D \<le> 1" using S1 D0 by simp
  have e1: "\<bar>to_double (S / D) - S / D\<bar> \<le> 1 / 2 ^ 53" using q0 q1 by (rule to_double_error)
  have "\<bar>accumulate data 0 - (0 + sum_list (map weighted data))\<bar>
      \<le> of_nat (length data) * (255 * of_nat n / 2 ^ 53)"
    using small by (intro accumulate_error) (simp_all add: len)
  then have a: "\<bar>S - sum_list (map weighted data)\<bar> \<le> of_nat n * (255 * of_nat n / 2 ^ 53)"
    by (simp add: S_def len)
  have b: "\<bar>sum_list (map weighted data) - T\<bar> \<le> of_nat n * (3315 / 2 ^ 53)"
    using sum_list_error [of data] by (simp add: T_def len)
  have "\<bar>S - T\<bar> \<le> of_nat n * (255 * of_nat n / 2 ^ 53) + of_nat n * (3315 / 2 ^ 53)"
    using a b by (rule abs_chain) simp
  then have "\<bar>S - T\<bar> \<le> D * ((of_nat n + 13) / 2 ^ 53)"
    by (simp only: error_budget D_def)
  then have e2: "\<bar>S / D - T / D\<bar> \<le> (of_nat n + 13) / 2 ^ 53" using D0 by (rule scaled_error)
  have "\<bar>to_double (S / D) - T / D\<bar> \<le> (of_nat n + 14) / 2 ^ 53"
    using e1 e2 by (rule abs_chain) (simp add: add_divide_distrib [symmetric])
  moreover have "of_nat (the_charWidth options) * of_nat (the_charHeight options) * 255 = D"
    by (simp add: D_def n_def)
  ultimately show ?thesis by (simp only: bb T_def n_def)
qed

lemma cell_brightness_error:
  assumes "0 < the_charWidth options" and "0 < the_charHeight options"
    and "the_charWidth options * the_charHeight options * 255 < 2 ^ 53"
  shows "\<bar>cell_brightness c options x y
          - spec_brightness (context_of c) (pixelX c options x) (pixelY c options y)
              (the_charWidth options) (the_charHeight options)\<bar>
         \<le> (of_nat (the_charWidth options * the_charHeight options) + 14) / 2 ^ 53"
  unfolding cell_brightness_def spec_brightness_sum_list
  using assms(1,2) _ assms(3) by (rule block_brightness_error) (simp add: read_block_length)

subsection \<open>Cells of the example frames\<close>

lemma grey_cell:
  "cell_brightness (uniform_canvas 1 1 grey) (options_of 1 1 1 1) 0 0
     = 282578800148737 / 562949953421312"
  "charIndex (cell_brightness (uniform_canvas 1 1 grey) (options_of 1 1 1 1) 0 0) = 4"
  "spec_brightness (context_of (uniform_canvas 1 1 grey)) 0 0 1 1 = 128 / 255"
proof -
  let ?o = "options_of 1 1 1 1"
  have d: "the_charWidth ?o = 1" "the_charHeight ?o = 1"
    by (simp_all add: options_of_def the_charWidth_def the_charHeight_def)
  have g: "0 < sampleWidth (uniform_canvas 1 1 grey) ?o" "0 < sampleHeight (uniform_canvas 1 1 grey) ?o"
    by (simp_all add: grid_eval)
  have c: "cell_brightness (uniform_canvas 1 1 grey) ?o 0 0 = block_brightness ?o [grey]"
    using d g by (rule single_cell)
  show "cell_brightness (uniform_canvas 1 1 grey) ?o 0 0 = 282578800148737 / 562949953421312"
    by (simp only: c grey_1x1(1) [OF d])
  show "charIndex (cell_brightness (uniform_canvas 1 1 grey) ?o 0 0) = 4"
    by (simp only: c grey_1x1(2) [OF d])
  show "spec_brightness (context_of (uniform_canvas 1 1 grey)) 0 0 1 1 = 128 / 255"
    by (subst spec_brightness_single) (simp add: grey_def channel_numeral)
qed

text \<open>The one cell of a frame of one pixel, with cells of one pixel: its block and its size.\<close>

lemma single_cell_block:
  "pixelX (uniform_canvas 1 1 p) (options_of 1 1 1 1) 0 = 0"
  "pixelY (uniform_canvas 1 1 p) (options_of 1 1 1 1) 0 = 0"
  "the_charWidth (options_of 1 1 1 1) = 1"
  "the_charHeight (options_of 1 1 1 1) = 1"
  by (simp_all add: grid_eval)

lemma single_cell_grid:
  "sampleWidth (uniform_canvas 1 1 p) (options_of 1 1 1 1) = 1"
  "sampleHeight (uniform_canvas 1 1 p) (options_of 1 1 1 1) = 1"
  by (simp_all add: grid_eval)

lemma ramp_length: "length ASCII_CHARS = 10"
  by (simp add: ASCII_CHARS_def)

lemma exact_third_glyph:
  "ASCII_CHARS ! nat \<lfloor>(1 / 3 :: rat) * (of_nat (length ASCII_CHARS) - 1)\<rfloor> = CHR ''*''"
proof -
  have "\<lfloor>(1 / 3 :: rat) * (of_nat (length ASCII_CHARS) - 1)\<rfloor> = 3"
    by (simp add: ramp_length)
  then show ?thesis by (simp only: ramp_3)
qed

lemma charIndex_floor:
  "charIndex b = \<lfloor>to_double (b * (of_nat (length ASCII_CHARS) - 1))\<rfloor>"
  by (simp add: charIndex_def double_mul_def ramp_length)

lemma grey_block:
  "cell_brightness (uniform_canvas 4 4 grey) (options_of 2 2 2 2) 1 1
     = 282578800148737 / 562949953421312"
  "charIndex (cell_brightness (uniform_canvas 4 4 grey) (options_of 2 2 2 2) 1 1) = 4"
  "pixelX (uniform_canvas 4 4 grey) (options_of 2 2 2 2) 1 = 2"
  "pixelY (uniform_canvas 4 4 grey) (options_of 2 2 2 2) 1 = 2"
  "the_charWidth (options_of 2 2 2 2) = 2"
  "the_charHeight (options_of 2 2 2 2) = 2"
  "spec_brightness (context_of (uniform_canvas 4 4 grey)) 2 2 2 2 = 128 / 255"
proof -
  let ?c = "uniform_canvas 4 4 grey" and ?o = "options_of 2 2 2 2"
  show d: "the_charWidth ?o = 2" "the_charHeight ?o = 2"
    by (simp_all add: options_of_def the_charWidth_def the_charHeight_def)
  have p: "0 < the_charWidth ?o" "0 < the_charHeight ?o" by (simp_all only: d)
  have g: "1 < sampleWidth ?c ?o" "1 < sampleHeight ?c ?o" by (simp_all add: grid_eval)
  have "replicate (2 * 2) grey = [grey, grey, grey, grey]" by (simp add: numeral_eq_Suc)
  then have rp: "replicate (the_charWidth ?o * the_charHeight ?o) grey = [grey, grey, grey, grey]"
    by (simp only: d)
  have "cell_brightness ?c ?o 1 1
      = block_brightness ?o (replicate (the_charWidth ?o * the_charHeight ?o) grey)"
    using uniform_canvas_pixels p g by (rule uniform_cell_brightness)
  then have c: "cell_brightness ?c ?o 1 1 = block_brightness ?o [grey, grey, grey, grey]"
    by (simp only: rp)
  show "cell_brightness ?c ?o 1 1 = 282578800148737 / 562949953421312"
    by (simp only: c grey_2x2(1) [OF d])
  show "charIndex (cell_brightness ?c ?o 1 1) = 4"
    by (simp only: c grey_2x2(2) [OF d])
  show "pixelX ?c ?o 1 = 2" "pixelY ?c ?o 1 = 2" by (simp_all add: grid_eval)
  show "spec_brightness (context_of ?c) 2 2 2 2 = 128 / 255"
    by (simp add: spec_brightness_def pixel_at_def context_of_def uniform_canvas_def grey_def
        channel_numeral lessThan_nat_numeral lessThan_Suc)
qed

lemma margin_order:
  fixes b1 :: rat
  assumes "\<bar>b1 - s1\<bar> \<le> e1" and "\<bar>b2 - s2\<bar> \<le> e2" and "s1 + (e1 + e2) \<le> s2"
  shows "b1 \<le> b2"
  using assms by linarith

section \<open>Properties\<close>

text \<open>
  C7. If no drawing context can be obtained from the canvas, \<open>renderASCII\<close> returns the
  empty string for every options value; it does not raise.
\<close>

theorem renderASCII_no_context:
  "getContext c = None \<Longrightarrow> renderASCII c options = Inr ''''"
  by (simp add: renderASCII_def)

theorem renderASCII_no_context_witness:
  "getContext no_context_canvas = None
   \<and> renderASCII no_context_canvas default_options = Inr ''''"
proof -
  have h: "getContext no_context_canvas = None"
    by (simp add: getContext_def no_context_canvas_def)
  show ?thesis
    using h renderASCII_no_context [OF h, of default_options] by simp
qed

text \<open>
  C1, as the specification states it, fails: the grid is not floored at 1. On a readable
  5 by 5 frame with the default options the code's grid has 0 columns and 0 rows where
  section 4.1 gives 1 and 1, and the output is empty.
\<close>

theorem grid_floor_counterexample:
  "sampleWidth (uniform_canvas 5 5 white) default_options = 0
   \<and> spec_cols (uniform_canvas 5 5 white) default_options = 1
   \<and> sampleHeight (uniform_canvas 5 5 white) default_options = 0
   \<and> spec_rows (uniform_canvas 5 5 white) default_options = 1
   \<and> renderASCII (uniform_canvas 5 5 white) default_options = Inr ''''"
proof -
  have h: "sampleHeight (uniform_canvas 5 5 white) default_options = 0"
    by (simp add: sampleHeight_def sample_extent_def uniform_canvas_def default_options_def
        the_maxHeight_def the_charHeight_def)
  have w: "sampleWidth (uniform_canvas 5 5 white) default_options = 0"
    by (simp add: sampleWidth_def sample_extent_def uniform_canvas_def default_options_def
        the_maxWidth_def the_charWidth_def)
  have "spec_cols (uniform_canvas 5 5 white) default_options = 1"
    and "spec_rows (uniform_canvas 5 5 white) default_options = 1"
    by (simp_all add: spec_cols_def spec_rows_def uniform_canvas_def default_options_def
        the_maxWidth_def the_charWidth_def the_maxHeight_def the_charHeight_def)
  then show ?thesis using h w renderASCII_empty_grid [OF h] by simp
qed

text \<open>
  C1, amended. For every readable frame and all options with positive fields,
  \<open>renderASCII\<close> uses the grid \<open>cols = min(maxWidth, floor(width / charWidth))\<close>,
  \<open>rows = min(maxHeight, floor(height / charHeight))\<close>, with no floor at 1: there is at
  least one column exactly when the frame is at least one cell wide, at least one row
  exactly when it is at least one cell high, and exactly then the grid is the one of
  section 4.1. The output is a block of that many rows and columns.
\<close>

theorem grid_size:
  assumes "readable c"
    and "0 < the_charWidth options" and "0 < the_charHeight options"
    and "0 < the_maxWidth options" and "0 < the_maxHeight options"
  shows "sampleWidth c options = min (the_maxWidth options) (width c div the_charWidth options)
    \<and> sampleHeight c options = min (the_maxHeight options) (height c div the_charHeight options)
    \<and> (1 \<le> sampleWidth c options) = (the_charWidth options \<le> width c)
    \<and> (1 \<le> sampleHeight c options) = (the_charHeight options \<le> height c)
    \<and> (sampleWidth c options = spec_cols c options) = (the_charWidth options \<le> width c)
    \<and> (sampleHeight c options = spec_rows c options) = (the_charHeight options \<le> height c)
    \<and> renderASCII c options = Inr (terminated_lines (grid_rows c options))
    \<and> text_block (min (the_maxHeight options) (height c div the_charHeight options))
         (min (the_maxWidth options) (width c div the_charWidth options))
         (terminated_lines (grid_rows c options))"
proof -
  have w: "sampleWidth c options = min (the_maxWidth options) (width c div the_charWidth options)"
    using assms(2) by (simp add: sampleWidth_def sample_extent_pos)
  have h: "sampleHeight c options = min (the_maxHeight options) (height c div the_charHeight options)"
    using assms(3) by (simp add: sampleHeight_def sample_extent_pos)
  have dw: "(1 \<le> width c div the_charWidth options) = (the_charWidth options \<le> width c)"
    using assms(2) by (simp add: Suc_le_eq div_greater_zero_iff)
  have dh: "(1 \<le> height c div the_charHeight options) = (the_charHeight options \<le> height c)"
    using assms(3) by (simp add: Suc_le_eq div_greater_zero_iff)
  have w1: "(1 \<le> sampleWidth c options) = (the_charWidth options \<le> width c)"
    using assms(4) dw unfolding w by auto
  have h1: "(1 \<le> sampleHeight c options) = (the_charHeight options \<le> height c)"
    using assms(5) dh unfolding h by auto
  have ws: "(sampleWidth c options = spec_cols c options) = (the_charWidth options \<le> width c)"
    using w1 unfolding spec_cols_def w by auto
  have hs: "(sampleHeight c options = spec_rows c options) = (the_charHeight options \<le> height c)"
    using h1 unfolding spec_rows_def h by auto
  have r: "renderASCII c options = Inr (terminated_lines (grid_rows c options))"
    using assms(1,2,3) by (rule renderASCII_grid)
  have b: "text_block (min (the_maxHeight options) (height c div the_charHeight options))
         (min (the_maxWidth options) (width c div the_charWidth options))
         (terminated_lines (grid_rows c options))"
    using grid_rows_block [OF assms(2,3), of c] unfolding w h .
  show ?thesis using w h w1 h1 ws hs r b by (intro conjI)
qed

theorem grid_size_witness:
  "sampleWidth (uniform_canvas 100 100 white) default_options = 10
   \<and> sampleHeight (uniform_canvas 100 100 white) default_options = 7
   \<and> spec_cols (uniform_canvas 100 100 white) default_options = 10
   \<and> spec_rows (uniform_canvas 100 100 white) default_options = 7
   \<and> text_block 7 10
        (terminated_lines (grid_rows (uniform_canvas 100 100 white) default_options))"
proof -
  let ?c = "uniform_canvas 100 100 white"
  have "readable ?c" by (simp add: uniform_canvas_def)
  moreover have "0 < the_charWidth default_options" and "0 < the_charHeight default_options"
    and "0 < the_maxWidth default_options" and "0 < the_maxHeight default_options"
    by (simp_all add: default_options_def the_charWidth_def the_charHeight_def
        the_maxWidth_def the_maxHeight_def)
  ultimately show ?thesis
    using grid_size [of ?c default_options]
    by (simp add: uniform_canvas_def default_options_def the_charWidth_def the_charHeight_def
        the_maxWidth_def the_maxHeight_def)
qed

text \<open>
  C2, as the specification states it, fails, since section 4.1 floors the grid at 1: on a
  readable 5 by 5 frame with the default options section 4.1 gives 1 row and 1 column,
  and the output is the empty text, which is not a block of one line of one character.
\<close>

theorem renderASCII_lines_counterexample:
  "renderASCII (uniform_canvas 5 5 white) default_options = Inr ''''
   \<and> spec_rows (uniform_canvas 5 5 white) default_options = 1
   \<and> spec_cols (uniform_canvas 5 5 white) default_options = 1
   \<and> \<not> text_block (spec_rows (uniform_canvas 5 5 white) default_options)
          (spec_cols (uniform_canvas 5 5 white) default_options) ''''"
proof -
  have h: "sampleHeight (uniform_canvas 5 5 white) default_options = 0"
    by (simp add: sampleHeight_def sample_extent_def uniform_canvas_def default_options_def
        the_maxHeight_def the_charHeight_def)
  have s: "spec_cols (uniform_canvas 5 5 white) default_options = 1"
    "spec_rows (uniform_canvas 5 5 white) default_options = 1"
    by (simp_all add: spec_cols_def spec_rows_def uniform_canvas_def default_options_def
        the_maxWidth_def the_charWidth_def the_maxHeight_def the_charHeight_def)
  have "\<not> text_block 1 1 ''''" by simp
  then show ?thesis using s renderASCII_empty_grid [OF h] by simp
qed

text \<open>
  C2, amended. For every readable frame and all options with positive \<open>charWidth\<close> and
  \<open>charHeight\<close>, the text \<open>renderASCII\<close> returns consists of exactly \<open>rows\<close> lines,
  each of exactly \<open>cols\<close> characters and closed by a newline, where
  \<open>rows = sampleHeight\<close> and \<open>cols = sampleWidth\<close> are the grid the code computes
  (the minimum, not floored at 1).
\<close>

theorem renderASCII_lines:
  assumes "readable c" and "0 < the_charWidth options" and "0 < the_charHeight options"
  shows "renderASCII c options = Inr (terminated_lines (grid_rows c options))
    \<and> length (grid_rows c options) = sampleHeight c options
    \<and> (\<forall>l \<in> set (grid_rows c options). length l = sampleWidth c options \<and> newline \<notin> set l)
    \<and> text_block (sampleHeight c options) (sampleWidth c options)
         (terminated_lines (grid_rows c options))"
proof -
  have "\<forall>l \<in> set (grid_rows c options). length l = sampleWidth c options \<and> newline \<notin> set l"
    using grid_row_no_newline [OF assms(2,3)] by (auto simp add: grid_rows_def grid_row_length)
  then show ?thesis
    using renderASCII_grid [OF assms] grid_rows_block [OF assms(2,3), of c]
    by (simp add: grid_rows_length)
qed

theorem renderASCII_lines_witness:
  "renderASCII (uniform_canvas 3 2 grey) (options_of 1 1 5 5)
     = Inr (terminated_lines [''+++'', ''+++''])
   \<and> sampleHeight (uniform_canvas 3 2 grey) (options_of 1 1 5 5) = 2
   \<and> sampleWidth (uniform_canvas 3 2 grey) (options_of 1 1 5 5) = 3
   \<and> text_block 2 3 (terminated_lines [''+++'', ''+++''])"
proof -
  let ?c = "uniform_canvas 3 2 grey" and ?o = "options_of 1 1 5 5"
  have p: "readable ?c" "0 < the_charWidth ?o" "0 < the_charHeight ?o"
    by (simp_all add: uniform_canvas_def options_of_def the_charWidth_def the_charHeight_def)
  have d: "the_charWidth ?o = 1" "the_charHeight ?o = 1"
    by (simp_all add: options_of_def the_charWidth_def the_charHeight_def)
  have h: "sampleHeight ?c ?o = 2" and w: "sampleWidth ?c ?o = 3"
    by (simp_all add: grid_eval)
  have rep: "replicate 2 (replicate 3 a) = [[a, a, a], [a, a, a]]" for a :: char
    by (simp add: numeral_2_eq_2 numeral_3_eq_3)
  have "grid_rows ?c ?o = replicate 2 (replicate 3 (ASCII_CHARS ! nat
      (charIndex (block_brightness ?o (replicate (1 * 1) grey)))))"
    using uniform_grid_rows [OF uniform_canvas_pixels p(2,3), of 3 2 grey] by (simp only: h w d)
  also have "replicate (1 * 1) grey = [grey]" by simp
  finally have g: "grid_rows ?c ?o = [''+++'', ''+++'']"
    by (simp only: grey_1x1(2) [OF d] ramp_4 rep)
  show ?thesis using renderASCII_lines [OF p] by (simp only: g h w simp_thms)
qed

text \<open>
  C10. For every readable frame and all options with positive \<open>charWidth\<close> and
  \<open>charHeight\<close>, the text returned is \<open>rows\<close> times \<open>cols\<close> glyphs of the ramp
  followed by one newline; its length is \<open>rows * (cols + 1)\<close>, it holds exactly
  \<open>rows\<close> newlines, and it ends with a newline whenever \<open>rows \<ge> 1\<close>.
\<close>

theorem renderASCII_text:
  assumes "readable c" and "0 < the_charWidth options" and "0 < the_charHeight options"
  shows "renderASCII c options
           = Inr (concat (map (\<lambda>y. map (\<lambda>x. cell_glyph c options x y) [0..<sampleWidth c options]
                                 @ [newline])
                    [0..<sampleHeight c options]))
    \<and> (\<forall>x y. cell_glyph c options x y \<in> set ASCII_CHARS)
    \<and> (\<forall>s. renderASCII c options = Inr s \<longrightarrow>
          length s = sampleHeight c options * (sampleWidth c options + 1)
          \<and> count_list s newline = sampleHeight c options
          \<and> (1 \<le> sampleHeight c options \<longrightarrow> last s = newline))"
proof -
  let ?ls = "grid_rows c options"
  have r: "renderASCII c options = Inr (terminated_lines ?ls)"
    using assms by (rule renderASCII_grid)
  have a: "\<forall>l \<in> set ?ls. length l = sampleWidth c options"
    by (auto simp add: grid_rows_def grid_row_length)
  have b: "\<forall>l \<in> set ?ls. newline \<notin> set l"
    using grid_row_no_newline [OF assms(2,3)] by (auto simp add: grid_rows_def)
  have l: "length (terminated_lines ?ls) = sampleHeight c options * (sampleWidth c options + 1)"
    using terminated_lines_length [OF a] by (simp add: grid_rows_length)
  have n: "count_list (terminated_lines ?ls) newline = sampleHeight c options"
    using terminated_lines_count [OF b] by (simp add: grid_rows_length)
  have e: "1 \<le> sampleHeight c options \<longrightarrow> last (terminated_lines ?ls) = newline"
  proof
    assume "1 \<le> sampleHeight c options"
    then have "?ls \<noteq> []" using grid_rows_length [of c options] by auto
    then show "last (terminated_lines ?ls) = newline" by (rule terminated_lines_last)
  qed
  have g: "\<forall>x y. cell_glyph c options x y \<in> set ASCII_CHARS"
    using cell_glyph_in_ramp [OF assms(2,3)] by simp
  show ?thesis using r l n e g by (simp add: terminated_grid_rows)
qed

theorem renderASCII_text_witness:
  "renderASCII (uniform_canvas 4 6 grey) (options_of 2 2 5 5)
     = Inr (''++'' @ [newline] @ ''++'' @ [newline] @ ''++'' @ [newline])
   \<and> sampleHeight (uniform_canvas 4 6 grey) (options_of 2 2 5 5) = 3
   \<and> sampleWidth (uniform_canvas 4 6 grey) (options_of 2 2 5 5) = 2
   \<and> length (''++'' @ [newline] @ ''++'' @ [newline] @ ''++'' @ [newline]) = 3 * (2 + 1)
   \<and> count_list (''++'' @ [newline] @ ''++'' @ [newline] @ ''++'' @ [newline]) newline = 3
   \<and> last (''++'' @ [newline] @ ''++'' @ [newline] @ ''++'' @ [newline]) = newline"
proof -
  let ?c = "uniform_canvas 4 6 grey" and ?o = "options_of 2 2 5 5"
  let ?s = "''++'' @ [newline] @ ''++'' @ [newline] @ ''++'' @ [newline]"
  have p: "readable ?c" "0 < the_charWidth ?o" "0 < the_charHeight ?o"
    by (simp_all add: uniform_canvas_def options_of_def the_charWidth_def the_charHeight_def)
  have g: "concat (map (\<lambda>y. map (\<lambda>x. cell_glyph ?c ?o x y) [0..<sampleWidth ?c ?o] @ [newline])
                    [0..<sampleHeight ?c ?o]) = ?s"
  proof -
    have d: "the_charWidth ?o = 2" "the_charHeight ?o = 2"
      by (simp_all add: options_of_def the_charWidth_def the_charHeight_def)
    have h: "sampleHeight ?c ?o = 3" and w: "sampleWidth ?c ?o = 2"
      by (simp_all add: grid_eval)
    have rep: "replicate 3 (replicate 2 a) = [[a, a], [a, a], [a, a]]" for a :: char
      by (simp add: numeral_2_eq_2 numeral_3_eq_3)
    have "grid_rows ?c ?o = replicate 3 (replicate 2 (ASCII_CHARS ! nat
        (charIndex (block_brightness ?o (replicate (2 * 2) grey)))))"
      using uniform_grid_rows [OF uniform_canvas_pixels p(2,3), of 4 6 grey] by (simp only: h w d)
    also have "replicate (2 * 2) grey = [grey, grey, grey, grey]"
      by (simp add: numeral_2_eq_2)
    finally have "grid_rows ?c ?o = [''++'', ''++'', ''++'']"
      by (simp only: grey_2x2(2) [OF d] ramp_4 rep)
    then have "terminated_lines (grid_rows ?c ?o) = ?s" by (simp add: terminated_lines_def)
    then show ?thesis by (simp only: terminated_grid_rows)
  qed
  have h: "sampleHeight ?c ?o = 3" and w: "sampleWidth ?c ?o = 2"
    by (simp_all add: grid_eval)
  have one: "1 \<le> sampleHeight ?c ?o" by (simp only: h)
  note t = renderASCII_text [OF p]
  from t have "renderASCII ?c ?o
           = Inr (concat (map (\<lambda>y. map (\<lambda>x. cell_glyph ?c ?o x y) [0..<sampleWidth ?c ?o]
                                 @ [newline])
                    [0..<sampleHeight ?c ?o]))" by (elim conjE)
  then have r: "renderASCII ?c ?o = Inr ?s" by (simp only: g)
  from t r have "length ?s = sampleHeight ?c ?o * (sampleWidth ?c ?o + 1)" by blast
  then have t1: "length ?s = 3 * (2 + 1)" by (simp only: h w)
  from t r have "count_list ?s newline = sampleHeight ?c ?o" by blast
  then have t2: "count_list ?s newline = 3" by (simp only: h)
  from t r one have t3: "last ?s = newline" by blast
  show ?thesis using r h w t1 t2 t3 by (intro conjI)
qed

text \<open>
  C8. With positive \<open>charWidth\<close> and \<open>charHeight\<close>, reading a block never fails,
  whatever its anchor, and yields \<open>charWidth * charHeight\<close> pixels; a pixel at or beyond
  the frame's edge reads as transparent black and adds nothing to the brightness; the
  block of a grid cell \<open>(x, y)\<close> lies inside the frame; and the cell's computation
  yields a glyph.
\<close>

theorem sampling_total:
  assumes "0 < the_charWidth options" and "0 < the_charHeight options"
    and "x < sampleWidth c options" and "y < sampleHeight c options"
  shows "(\<forall>sx sy. getImageData (context_of c) sx sy (the_charWidth options) (the_charHeight options)
            = Inr (read_block (context_of c) sx sy (the_charWidth options) (the_charHeight options))
          \<and> length (read_block (context_of c) sx sy (the_charWidth options) (the_charHeight options))
            = the_charWidth options * the_charHeight options)
    \<and> (\<forall>u v. \<not> (u < width c \<and> v < height c) \<longrightarrow>
          pixel_at (context_of c) u v = transparent_black
          \<and> weighted (pixel_at (context_of c) u v) = 0)
    \<and> pixelX c options x + the_charWidth options \<le> width c
    \<and> pixelY c options y + the_charHeight options \<le> height c
    \<and> render_cell c (context_of c) options x y = Inr [cell_glyph c options x y]"
proof -
  have g: "\<forall>sx sy. getImageData (context_of c) sx sy (the_charWidth options) (the_charHeight options)
            = Inr (read_block (context_of c) sx sy (the_charWidth options) (the_charHeight options))
          \<and> length (read_block (context_of c) sx sy (the_charWidth options) (the_charHeight options))
            = the_charWidth options * the_charHeight options"
    using assms(1,2) by (simp add: getImageData_def read_block_length)
  have o: "\<forall>u v. \<not> (u < width c \<and> v < height c) \<longrightarrow>
          pixel_at (context_of c) u v = transparent_black
          \<and> weighted (pixel_at (context_of c) u v) = 0"
    using pixel_outside [of _ c] weighted_transparent_black by simp
  have px: "pixelX c options x + the_charWidth options \<le> width c"
    using assms(1,3) unfolding pixelX_def sampleWidth_def by (rule anchor_in_frame)
  have py: "pixelY c options y + the_charHeight options \<le> height c"
    using assms(2,4) unfolding pixelY_def sampleHeight_def by (rule anchor_in_frame)
  show ?thesis using g o px py render_cell_glyph [OF assms(1,2), of c x y] by (intro conjI)
qed

theorem sampling_total_witness:
  "getImageData (context_of (uniform_canvas 4 6 grey)) 2 4 2 2 = Inr [grey, grey, grey, grey]
   \<and> pixelX (uniform_canvas 4 6 grey) (options_of 2 2 5 5) 1 = 2
   \<and> pixelY (uniform_canvas 4 6 grey) (options_of 2 2 5 5) 2 = 4
   \<and> pixel_at (context_of (uniform_canvas 4 6 grey)) 4 6 = transparent_black
   \<and> render_cell (uniform_canvas 4 6 grey) (context_of (uniform_canvas 4 6 grey))
        (options_of 2 2 5 5) 1 2 = Inr ''+''"
proof -
  let ?c = "uniform_canvas 4 6 grey" and ?o = "options_of 2 2 5 5"
  have p: "0 < the_charWidth ?o" "0 < the_charHeight ?o"
    "1 < sampleWidth ?c ?o" "2 < sampleHeight ?c ?o"
    by (simp_all add: grid_eval)
  have d: "the_charWidth ?o = 2" "the_charHeight ?o = 2"
    by (simp_all add: options_of_def the_charWidth_def the_charHeight_def)
  have a: "pixelX ?c ?o 1 = 2" "pixelY ?c ?o 2 = 4" by (simp_all add: grid_eval)
  have b: "read_block (context_of ?c) 2 4 2 2 = [grey, grey, grey, grey]"
    by (simp add: read_block_def pixel_at_def context_of_def uniform_canvas_def upt_conv_Cons)
  have "cell_brightness ?c ?o 1 2 = block_brightness ?o [grey, grey, grey, grey]"
    by (simp only: cell_brightness_def a d b)
  then have g: "cell_glyph ?c ?o 1 2 = CHR ''+''"
    by (simp only: cell_glyph_def grey_2x2(2) [OF d] ramp_4)
  have o: "\<not> ((4::nat) < width ?c \<and> (6::nat) < height ?c)" by (simp add: uniform_canvas_def)
  note t = sampling_total [OF p]
  from t have "getImageData (context_of ?c) 2 4 (the_charWidth ?o) (the_charHeight ?o)
      = Inr (read_block (context_of ?c) 2 4 (the_charWidth ?o) (the_charHeight ?o))" by blast
  then have r1: "getImageData (context_of ?c) 2 4 2 2 = Inr [grey, grey, grey, grey]"
    by (simp only: d b)
  from t o have r2: "pixel_at (context_of ?c) 4 6 = transparent_black" by blast
  from t have "render_cell ?c (context_of ?c) ?o 1 2 = Inr [cell_glyph ?c ?o 1 2]" by blast
  then have r3: "render_cell ?c (context_of ?c) ?o 1 2 = Inr ''+''" by (simp only: g)
  show ?thesis using r1 a r2 r3 by (intro conjI)
qed

text \<open>
  C6, as the specification states it, fails: \<open>getOptimalSettings\<close> floors the cell size
  (at 8 by 12), not the grid. For a 5 by 5 canvas it returns \<open>maxWidth = 0\<close>, and on a
  readable 5 by 5 frame the grid has no column and no row and the output is empty.
\<close>

theorem getOptimalSettings_grid_counterexample:
  "the_maxWidth (getOptimalSettings 5 5) = 0
   \<and> sampleWidth (uniform_canvas 5 5 white) (getOptimalSettings 5 5) = 0
   \<and> sampleHeight (uniform_canvas 5 5 white) (getOptimalSettings 5 5) = 0
   \<and> renderASCII (uniform_canvas 5 5 white) (getOptimalSettings 5 5) = Inr ''''"
proof -
  have h: "sampleHeight (uniform_canvas 5 5 white) (getOptimalSettings 5 5) = 0"
    by (simp add: sampleHeight_def sample_extent_def getOptimalSettings_fields uniform_canvas_def)
  have w: "sampleWidth (uniform_canvas 5 5 white) (getOptimalSettings 5 5) = 0"
    by (simp add: sampleWidth_def sample_extent_def getOptimalSettings_fields uniform_canvas_def)
  have m: "the_maxWidth (getOptimalSettings 5 5) = 0" by (simp add: getOptimalSettings_fields)
  show ?thesis using m w h renderASCII_empty_grid [OF h] by (intro conjI)
qed

text \<open>
  C6, amended. On a frame of the dimensions given to \<open>getOptimalSettings\<close>, the settings
  it returns give a grid of at least one column and one row exactly when
  \<open>canvasWidth \<ge> 12\<close>, \<open>canvasHeight \<ge> 16\<close>, and the scaled cell still fits the frame:
  \<open>floor(max(canvasWidth, canvasHeight) / 100) \<le> canvasWidth\<close> and
  \<open>floor(14 * max(canvasWidth, canvasHeight) / 1000) \<le> canvasHeight\<close>.
\<close>

theorem getOptimalSettings_grid:
  assumes "width c = canvasWidth" and "height c = canvasHeight"
  shows "(1 \<le> sampleWidth c (getOptimalSettings canvasWidth canvasHeight)
          \<and> 1 \<le> sampleHeight c (getOptimalSettings canvasWidth canvasHeight))
       = (12 \<le> canvasWidth \<and> 16 \<le> canvasHeight
          \<and> max canvasWidth canvasHeight div 100 \<le> canvasWidth
          \<and> (14 * max canvasWidth canvasHeight) div 1000 \<le> canvasHeight)"
proof -
  let ?o = "getOptimalSettings canvasWidth canvasHeight"
  let ?m = "max canvasWidth canvasHeight"
  have cw: "0 < the_charWidth ?o" and ch: "0 < the_charHeight ?o"
    by (simp_all add: getOptimalSettings_fields)
  have w: "sampleWidth c ?o = min (canvasWidth div 12) (canvasWidth div max 8 (?m div 100))"
    using cw assms(1) by (simp add: sampleWidth_def sample_extent_pos getOptimalSettings_fields)
  have h: "sampleHeight c ?o = min (canvasHeight div 16) (canvasHeight div max 12 ((14 * ?m) div 1000))"
    using ch assms(2) by (simp add: sampleHeight_def sample_extent_pos getOptimalSettings_fields)
  have a: "(1 \<le> sampleWidth c ?o) = (12 \<le> canvasWidth \<and> ?m div 100 \<le> canvasWidth)"
    unfolding w by (simp only: min.bounded_iff div_ge_1) auto
  have b: "(1 \<le> sampleHeight c ?o) = (16 \<le> canvasHeight \<and> (14 * ?m) div 1000 \<le> canvasHeight)"
    unfolding h by (simp only: min.bounded_iff div_ge_1) auto
  show ?thesis unfolding a b by blast
qed

theorem getOptimalSettings_grid_witness:
  "sampleWidth (uniform_canvas 640 480 white) (getOptimalSettings 640 480) = 53
   \<and> sampleHeight (uniform_canvas 640 480 white) (getOptimalSettings 640 480) = 30
   \<and> (1 \<le> sampleWidth (uniform_canvas 640 480 white) (getOptimalSettings 640 480)
       \<and> 1 \<le> sampleHeight (uniform_canvas 640 480 white) (getOptimalSettings 640 480))"
proof -
  let ?c = "uniform_canvas 640 480 white"
  have p: "width ?c = 640" "height ?c = 480" by (simp_all add: uniform_canvas_def)
  have w: "sampleWidth ?c (getOptimalSettings 640 480) = 53"
    by (simp add: sampleWidth_def sample_extent_def getOptimalSettings_fields uniform_canvas_def)
  have h: "sampleHeight ?c (getOptimalSettings 640 480) = 30"
    by (simp add: sampleHeight_def sample_extent_def getOptimalSettings_fields uniform_canvas_def)
  have "(12::nat) \<le> 640 \<and> (16::nat) \<le> 480 \<and> max 640 480 div 100 \<le> (640::nat)
      \<and> (14 * max 640 480) div 1000 \<le> (480::nat)" by simp
  then have "1 \<le> sampleWidth ?c (getOptimalSettings 640 480)
       \<and> 1 \<le> sampleHeight ?c (getOptimalSettings 640 480)"
    by (simp only: getOptimalSettings_grid [OF p])
  then show ?thesis using w h by (intro conjI) simp_all
qed







text \<open>
  C3, as the specification states it, fails: the brightness is not the exact value of
  the formula, and the glyph is not the one at the floor of the exact value times 9. The
  one cell of a frame of one pixel \<open>rgba(6, 140, 9, 255)\<close>, read with cells of one pixel,
  has the exact value \<open>85 / 255 = 1 / 3\<close>, whose index is \<open>floor(3) = 3\<close>, the glyph
  \<open>*\<close>. The code computes in doubles \<open>0.299 * 6 + 0.587 * 140 + 0.114 * 9 =
  84.99999999999999\<close>, the brightness \<open>0.33333333333333326\<close>, the index 2, and appends
  \<open>#\<close>.
\<close>

theorem cell_brightness_counterexample:
  "spec_brightness (context_of (uniform_canvas 1 1 leaf))
       (pixelX (uniform_canvas 1 1 leaf) (options_of 1 1 1 1) 0)
       (pixelY (uniform_canvas 1 1 leaf) (options_of 1 1 1 1) 0)
       (the_charWidth (options_of 1 1 1 1)) (the_charHeight (options_of 1 1 1 1)) = 1 / 3
   \<and> ASCII_CHARS ! nat \<lfloor>(1 / 3 :: rat) * (of_nat (length ASCII_CHARS) - 1)\<rfloor> = CHR ''*''
   \<and> cell_brightness (uniform_canvas 1 1 leaf) (options_of 1 1 1 1) 0 0
       = 1501199875790165 / 4503599627370496
   \<and> charIndex (cell_brightness (uniform_canvas 1 1 leaf) (options_of 1 1 1 1) 0 0) = 2
   \<and> render_cell (uniform_canvas 1 1 leaf) (context_of (uniform_canvas 1 1 leaf))
        (options_of 1 1 1 1) 0 0 = Inr ''#''
   \<and> renderASCII (uniform_canvas 1 1 leaf) (options_of 1 1 1 1) = Inr (''#'' @ [newline])"
proof -
  let ?c = "uniform_canvas 1 1 leaf" and ?o = "options_of 1 1 1 1"
  have p: "0 < the_charWidth ?o" "0 < the_charHeight ?o" by (simp_all only: single_cell_block)
  have s: "spec_brightness (context_of ?c) (pixelX ?c ?o 0) (pixelY ?c ?o 0)
      (the_charWidth ?o) (the_charHeight ?o) = 1 / 3"
    by (simp only: single_cell_block leaf_cell(3))
  have r: "render_cell ?c (context_of ?c) ?o 0 0 = Inr ''#''"
    by (simp only: render_cell_index [OF p] leaf_cell(2) ramp_2)
  have rd: "readable ?c" by (simp add: uniform_canvas_def)
  have "replicate (1 * 1) leaf = [leaf]" by simp
  then have rp: "replicate (the_charWidth ?o * the_charHeight ?o) leaf = [leaf]"
    by (simp only: single_cell_block)
  have "renderASCII ?c ?o
      = Inr (terminated_lines (replicate (sampleHeight ?c ?o) (replicate (sampleWidth ?c ?o)
          (ASCII_CHARS ! nat (charIndex (block_brightness ?o
             (replicate (the_charWidth ?o * the_charHeight ?o) leaf)))))))"
    using rd p uniform_canvas_pixels by (rule renderASCII_uniform)
  then have "renderASCII ?c ?o
      = Inr (terminated_lines (replicate (sampleHeight ?c ?o) (replicate (sampleWidth ?c ?o)
          (ASCII_CHARS ! nat (charIndex (block_brightness ?o [leaf]))))))"
    by (simp only: rp)
  then have "renderASCII ?c ?o
      = Inr (terminated_lines (replicate 1 (replicate 1 (CHR ''#''))))"
    by (simp only: single_cell_grid leaf_1x1(2) [OF single_cell_block(3,4)] ramp_2)
  then have a: "renderASCII ?c ?o = Inr (''#'' @ [newline])"
    by (simp add: terminated_lines_def)
  show ?thesis using s exact_third_glyph leaf_cell(1,2) r a by simp
qed

text \<open>
  C3, amended. With positive \<open>charWidth\<close> and \<open>charHeight\<close>, the brightness the code
  accumulates for a grid cell is the formula of the specification evaluated in doubles,
  every operation rounded: the sum over the sampled block, row by row, of
  \<open>(0.299 R + 0.587 G + 0.114 B) (alpha / 255)\<close>, divided by
  \<open>charWidth * charHeight * 255\<close>. For a block of \<open>n = charWidth * charHeight\<close> pixels
  with \<open>255 n < 2 ^ 53\<close> it is within \<open>(n + 14) / 2 ^ 53\<close> of the exact value of the
  formula and lies between 0 and 1; for every block it lies between 0 and \<open>35 / 32\<close>.
  The index is the floor of the rounded product \<open>brightness * (rampLength - 1)\<close> and
  lies between 0 and \<open>rampLength - 1\<close> for every block; the text the cell appends is
  the single character \<open>ASCII_CHARS[index]\<close>.
\<close>

theorem cell_brightness_and_glyph:
  assumes "0 < the_charWidth options" and "0 < the_charHeight options"
  shows "cell_brightness c options x y
           = rounded_brightness (context_of c) (pixelX c options x) (pixelY c options y)
               (the_charWidth options) (the_charHeight options)
    \<and> (the_charWidth options * the_charHeight options * 255 < 2 ^ 53 \<longrightarrow>
         \<bar>cell_brightness c options x y
           - spec_brightness (context_of c) (pixelX c options x) (pixelY c options y)
               (the_charWidth options) (the_charHeight options)\<bar>
           \<le> (of_nat (the_charWidth options * the_charHeight options) + 14) / 2 ^ 53
         \<and> cell_brightness c options x y \<le> 1)
    \<and> 0 \<le> cell_brightness c options x y \<and> cell_brightness c options x y \<le> 35 / 32
    \<and> charIndex (cell_brightness c options x y)
        = \<lfloor>to_double (cell_brightness c options x y * (of_nat (length ASCII_CHARS) - 1))\<rfloor>
    \<and> 0 \<le> charIndex (cell_brightness c options x y)
    \<and> charIndex (cell_brightness c options x y) \<le> int (length ASCII_CHARS) - 1
    \<and> render_cell c (context_of c) options x y
        = Inr [ASCII_CHARS ! nat (charIndex (cell_brightness c options x y))]"
proof -
  let ?b = "cell_brightness c options x y"
  have f: "?b = rounded_brightness (context_of c) (pixelX c options x) (pixelY c options y)
      (the_charWidth options) (the_charHeight options)"
    by (rule cell_brightness_rounded)
  have e: "the_charWidth options * the_charHeight options * 255 < 2 ^ 53 \<longrightarrow>
         \<bar>?b - spec_brightness (context_of c) (pixelX c options x) (pixelY c options y)
               (the_charWidth options) (the_charHeight options)\<bar>
           \<le> (of_nat (the_charWidth options * the_charHeight options) + 14) / 2 ^ 53
         \<and> ?b \<le> 1"
  proof
    assume small: "the_charWidth options * the_charHeight options * 255 < 2 ^ 53"
    have "?b \<le> 1"
      unfolding cell_brightness_def
      using assms _ small by (rule block_brightness_le_1) (simp add: read_block_length)
    then show "\<bar>?b - spec_brightness (context_of c) (pixelX c options x) (pixelY c options y)
               (the_charWidth options) (the_charHeight options)\<bar>
           \<le> (of_nat (the_charWidth options * the_charHeight options) + 14) / 2 ^ 53
         \<and> ?b \<le> 1"
      using cell_brightness_error [OF assms small, of c x y] by simp
  qed
  have b: "0 \<le> ?b \<and> ?b \<le> 35 / 32" using assms by (rule cell_brightness_bounds)
  then have "0 \<le> charIndex ?b \<and> charIndex ?b \<le> 9" by (intro charIndex_range) simp_all
  then have i: "0 \<le> charIndex ?b \<and> charIndex ?b \<le> int (length ASCII_CHARS) - 1"
    by (simp add: ramp_length)
  have fl: "charIndex ?b = \<lfloor>to_double (?b * (of_nat (length ASCII_CHARS) - 1))\<rfloor>"
    by (rule charIndex_floor)
  have r: "render_cell c (context_of c) options x y = Inr [ASCII_CHARS ! nat (charIndex ?b)]"
    using assms by (rule render_cell_index)
  show ?thesis using f e b fl i r by blast
qed

theorem cell_brightness_and_glyph_witness:
  "0 < the_charWidth (options_of 2 2 2 2) \<and> 0 < the_charHeight (options_of 2 2 2 2)
   \<and> the_charWidth (options_of 2 2 2 2) * the_charHeight (options_of 2 2 2 2) * 255 < 2 ^ 53
   \<and> cell_brightness (uniform_canvas 4 4 grey) (options_of 2 2 2 2) 1 1
       = 282578800148737 / 562949953421312
   \<and> spec_brightness (context_of (uniform_canvas 4 4 grey)) 2 2 2 2 = 128 / 255
   \<and> \<bar>cell_brightness (uniform_canvas 4 4 grey) (options_of 2 2 2 2) 1 1
        - spec_brightness (context_of (uniform_canvas 4 4 grey)) 2 2 2 2\<bar> \<le> 18 / 2 ^ 53
   \<and> cell_brightness (uniform_canvas 4 4 grey) (options_of 2 2 2 2) 1 1
       = rounded_brightness (context_of (uniform_canvas 4 4 grey)) 2 2 2 2
   \<and> charIndex (cell_brightness (uniform_canvas 4 4 grey) (options_of 2 2 2 2) 1 1) = 4
   \<and> render_cell (uniform_canvas 4 4 grey) (context_of (uniform_canvas 4 4 grey))
        (options_of 2 2 2 2) 1 1 = Inr ''+''"
proof -
  let ?c = "uniform_canvas 4 4 grey" and ?o = "options_of 2 2 2 2"
  have p: "0 < the_charWidth ?o" "0 < the_charHeight ?o" by (simp_all only: grey_block(5,6))
  have small: "the_charWidth ?o * the_charHeight ?o * 255 < 2 ^ 53"
    by (simp add: grey_block(5,6))
  have n: "(of_nat (the_charWidth ?o * the_charHeight ?o) + 14 :: rat) = 18"
    by (simp add: grey_block(5,6))
  note t = cell_brightness_and_glyph [OF p, of ?c 1 1]
  have t1: "cell_brightness ?c ?o 1 1 = rounded_brightness (context_of ?c) 2 2 2 2"
    using t by (simp only: grey_block(3,4,5,6))
  have t2: "\<bar>cell_brightness ?c ?o 1 1 - spec_brightness (context_of ?c) 2 2 2 2\<bar> \<le> 18 / 2 ^ 53"
  proof -
    from t small have "\<bar>cell_brightness ?c ?o 1 1
        - spec_brightness (context_of ?c) (pixelX ?c ?o 1) (pixelY ?c ?o 1)
            (the_charWidth ?o) (the_charHeight ?o)\<bar>
        \<le> (of_nat (the_charWidth ?o * the_charHeight ?o) + 14) / 2 ^ 53"
      by blast
    then have "\<bar>cell_brightness ?c ?o 1 1
        - spec_brightness (context_of ?c) (pixelX ?c ?o 1) (pixelY ?c ?o 1)
            (the_charWidth ?o) (the_charHeight ?o)\<bar> \<le> 18 / 2 ^ 53"
      by (simp only: n)
    then show ?thesis by (simp only: grey_block(3,4,5,6))
  qed
  have t3: "render_cell ?c (context_of ?c) ?o 1 1 = Inr ''+''"
    using t by (simp only: grey_block(2) ramp_4)
  show ?thesis using p small grey_block(1,2,7) t1 t2 t3 by simp
qed

text \<open>
  C5, as the specification states it, fails: the index follows the brightness the code
  computes in doubles, not the exact average luminance. Two frames of one pixel, read
  with cells of one pixel: the cell \<open>rgba(6, 140, 9, 255)\<close> and the cell
  \<open>rgba(85, 85, 85, 255)\<close> have the same exact average luminance \<open>1 / 3\<close>, so the
  first is greater than or equal to the second; but the first gets the index 2, the
  glyph \<open>#\<close>, and the second the index 3, the glyph \<open>*\<close>.
\<close>

theorem glyph_index_counterexample:
  "spec_brightness (context_of (uniform_canvas 1 1 slate))
       (pixelX (uniform_canvas 1 1 slate) (options_of 1 1 1 1) 0)
       (pixelY (uniform_canvas 1 1 slate) (options_of 1 1 1 1) 0)
       (the_charWidth (options_of 1 1 1 1)) (the_charHeight (options_of 1 1 1 1))
     \<le> spec_brightness (context_of (uniform_canvas 1 1 leaf))
       (pixelX (uniform_canvas 1 1 leaf) (options_of 1 1 1 1) 0)
       (pixelY (uniform_canvas 1 1 leaf) (options_of 1 1 1 1) 0)
       (the_charWidth (options_of 1 1 1 1)) (the_charHeight (options_of 1 1 1 1))
   \<and> charIndex (cell_brightness (uniform_canvas 1 1 slate) (options_of 1 1 1 1) 0 0) = 3
   \<and> charIndex (cell_brightness (uniform_canvas 1 1 leaf) (options_of 1 1 1 1) 0 0) = 2
   \<and> render_cell (uniform_canvas 1 1 slate) (context_of (uniform_canvas 1 1 slate))
        (options_of 1 1 1 1) 0 0 = Inr ''*''
   \<and> render_cell (uniform_canvas 1 1 leaf) (context_of (uniform_canvas 1 1 leaf))
        (options_of 1 1 1 1) 0 0 = Inr ''#''"
proof -
  let ?o = "options_of 1 1 1 1"
  have p: "0 < the_charWidth ?o" "0 < the_charHeight ?o" by (simp_all only: single_cell_block)
  have s: "spec_brightness (context_of (uniform_canvas 1 1 slate))
       (pixelX (uniform_canvas 1 1 slate) ?o 0) (pixelY (uniform_canvas 1 1 slate) ?o 0)
       (the_charWidth ?o) (the_charHeight ?o)
     \<le> spec_brightness (context_of (uniform_canvas 1 1 leaf))
       (pixelX (uniform_canvas 1 1 leaf) ?o 0) (pixelY (uniform_canvas 1 1 leaf) ?o 0)
       (the_charWidth ?o) (the_charHeight ?o)"
    by (simp only: single_cell_block leaf_cell(3) slate_cell(3))
  have r1: "render_cell (uniform_canvas 1 1 slate) (context_of (uniform_canvas 1 1 slate)) ?o 0 0
      = Inr ''*''"
    by (simp only: render_cell_index [OF p] slate_cell(2) ramp_3)
  have r2: "render_cell (uniform_canvas 1 1 leaf) (context_of (uniform_canvas 1 1 leaf)) ?o 0 0
      = Inr ''#''"
    by (simp only: render_cell_index [OF p] leaf_cell(2) ramp_2)
  show ?thesis using s slate_cell(2) leaf_cell(2) r1 r2 by blast
qed

text \<open>
  C5, amended. The index is monotonic in the brightness the code computes: of two cells
  (of one frame or of two, with the same options or not), the one whose computed
  brightness is greater than or equal to the other's appends the glyph of a greater or
  equal index. In the exact average luminance it is monotonic up to the rounding: when
  both blocks have fewer than \<open>2 ^ 53 / 255\<close> pixels and the exact values differ by
  at least \<open>(n1 + n2 + 28) / 2 ^ 53\<close>, \<open>n1\<close> and \<open>n2\<close> the numbers of pixels of the
  two blocks, the cell of the greater exact value has the greater or equal index.
\<close>

theorem glyph_index_monotone:
  assumes "0 < the_charWidth o1" and "0 < the_charHeight o1"
    and "0 < the_charWidth o2" and "0 < the_charHeight o2"
  shows "render_cell c1 (context_of c1) o1 x1 y1
           = Inr [ASCII_CHARS ! nat (charIndex (cell_brightness c1 o1 x1 y1))]
    \<and> render_cell c2 (context_of c2) o2 x2 y2
           = Inr [ASCII_CHARS ! nat (charIndex (cell_brightness c2 o2 x2 y2))]
    \<and> (cell_brightness c1 o1 x1 y1 \<le> cell_brightness c2 o2 x2 y2 \<longrightarrow>
         charIndex (cell_brightness c1 o1 x1 y1) \<le> charIndex (cell_brightness c2 o2 x2 y2))
    \<and> (the_charWidth o1 * the_charHeight o1 * 255 < 2 ^ 53
         \<and> the_charWidth o2 * the_charHeight o2 * 255 < 2 ^ 53
         \<and> spec_brightness (context_of c1) (pixelX c1 o1 x1) (pixelY c1 o1 y1)
               (the_charWidth o1) (the_charHeight o1)
             + ((of_nat (the_charWidth o1 * the_charHeight o1) + 14) / 2 ^ 53
                + (of_nat (the_charWidth o2 * the_charHeight o2) + 14) / 2 ^ 53)
           \<le> spec_brightness (context_of c2) (pixelX c2 o2 x2) (pixelY c2 o2 y2)
               (the_charWidth o2) (the_charHeight o2) \<longrightarrow>
         charIndex (cell_brightness c1 o1 x1 y1) \<le> charIndex (cell_brightness c2 o2 x2 y2))"
proof -
  let ?b1 = "cell_brightness c1 o1 x1 y1" and ?b2 = "cell_brightness c2 o2 x2 y2"
  have r1: "render_cell c1 (context_of c1) o1 x1 y1 = Inr [ASCII_CHARS ! nat (charIndex ?b1)]"
    using assms(1,2) by (rule render_cell_index)
  have r2: "render_cell c2 (context_of c2) o2 x2 y2 = Inr [ASCII_CHARS ! nat (charIndex ?b2)]"
    using assms(3,4) by (rule render_cell_index)
  have z: "0 \<le> ?b1" using cell_brightness_bounds [OF assms(1,2), of c1 x1 y1] by simp
  have m: "?b1 \<le> ?b2 \<longrightarrow> charIndex ?b1 \<le> charIndex ?b2"
    using z by (simp add: charIndex_mono)
  have e: "the_charWidth o1 * the_charHeight o1 * 255 < 2 ^ 53
         \<and> the_charWidth o2 * the_charHeight o2 * 255 < 2 ^ 53
         \<and> spec_brightness (context_of c1) (pixelX c1 o1 x1) (pixelY c1 o1 y1)
               (the_charWidth o1) (the_charHeight o1)
             + ((of_nat (the_charWidth o1 * the_charHeight o1) + 14) / 2 ^ 53
                + (of_nat (the_charWidth o2 * the_charHeight o2) + 14) / 2 ^ 53)
           \<le> spec_brightness (context_of c2) (pixelX c2 o2 x2) (pixelY c2 o2 y2)
               (the_charWidth o2) (the_charHeight o2) \<longrightarrow>
         charIndex ?b1 \<le> charIndex ?b2"
  proof
    assume h: "the_charWidth o1 * the_charHeight o1 * 255 < 2 ^ 53
         \<and> the_charWidth o2 * the_charHeight o2 * 255 < 2 ^ 53
         \<and> spec_brightness (context_of c1) (pixelX c1 o1 x1) (pixelY c1 o1 y1)
               (the_charWidth o1) (the_charHeight o1)
             + ((of_nat (the_charWidth o1 * the_charHeight o1) + 14) / 2 ^ 53
                + (of_nat (the_charWidth o2 * the_charHeight o2) + 14) / 2 ^ 53)
           \<le> spec_brightness (context_of c2) (pixelX c2 o2 x2) (pixelY c2 o2 y2)
               (the_charWidth o2) (the_charHeight o2)"
    have e1: "\<bar>?b1 - spec_brightness (context_of c1) (pixelX c1 o1 x1) (pixelY c1 o1 y1)
               (the_charWidth o1) (the_charHeight o1)\<bar>
        \<le> (of_nat (the_charWidth o1 * the_charHeight o1) + 14) / 2 ^ 53"
      using assms(1,2) h by (intro cell_brightness_error) simp_all
    have e2: "\<bar>?b2 - spec_brightness (context_of c2) (pixelX c2 o2 x2) (pixelY c2 o2 y2)
               (the_charWidth o2) (the_charHeight o2)\<bar>
        \<le> (of_nat (the_charWidth o2 * the_charHeight o2) + 14) / 2 ^ 53"
      using assms(3,4) h by (intro cell_brightness_error) simp_all
    have "?b1 \<le> ?b2" using e1 e2 by (rule margin_order) (use h in blast)
    with z show "charIndex ?b1 \<le> charIndex ?b2" by (rule charIndex_mono)
  qed
  show ?thesis using r1 r2 m e by blast
qed

theorem glyph_index_monotone_witness:
  "0 < the_charWidth (options_of 1 1 1 1) \<and> 0 < the_charHeight (options_of 1 1 1 1)
   \<and> the_charWidth (options_of 1 1 1 1) * the_charHeight (options_of 1 1 1 1) * 255 < 2 ^ 53
   \<and> cell_brightness (uniform_canvas 1 1 slate) (options_of 1 1 1 1) 0 0
       = 6004799503160661 / 18014398509481984
   \<and> cell_brightness (uniform_canvas 1 1 grey) (options_of 1 1 1 1) 0 0
       = 282578800148737 / 562949953421312
   \<and> cell_brightness (uniform_canvas 1 1 slate) (options_of 1 1 1 1) 0 0
       \<le> cell_brightness (uniform_canvas 1 1 grey) (options_of 1 1 1 1) 0 0
   \<and> spec_brightness (context_of (uniform_canvas 1 1 slate)) 0 0 1 1 = 1 / 3
   \<and> spec_brightness (context_of (uniform_canvas 1 1 grey)) 0 0 1 1 = 128 / 255
   \<and> (1 / 3 :: rat) + (15 / 2 ^ 53 + 15 / 2 ^ 53) \<le> 128 / 255
   \<and> charIndex (cell_brightness (uniform_canvas 1 1 slate) (options_of 1 1 1 1) 0 0) = 3
   \<and> charIndex (cell_brightness (uniform_canvas 1 1 grey) (options_of 1 1 1 1) 0 0) = 4
   \<and> charIndex (cell_brightness (uniform_canvas 1 1 slate) (options_of 1 1 1 1) 0 0)
       \<le> charIndex (cell_brightness (uniform_canvas 1 1 grey) (options_of 1 1 1 1) 0 0)
   \<and> render_cell (uniform_canvas 1 1 slate) (context_of (uniform_canvas 1 1 slate))
        (options_of 1 1 1 1) 0 0 = Inr ''*''
   \<and> render_cell (uniform_canvas 1 1 grey) (context_of (uniform_canvas 1 1 grey))
        (options_of 1 1 1 1) 0 0 = Inr ''+''"
proof -
  let ?o = "options_of 1 1 1 1"
  let ?s = "uniform_canvas 1 1 slate" and ?g = "uniform_canvas 1 1 grey"
  have p: "0 < the_charWidth ?o" "0 < the_charHeight ?o" by (simp_all only: single_cell_block)
  have "(1::nat) * 1 * 255 < 2 ^ 53" by simp
  then have small: "the_charWidth ?o * the_charHeight ?o * 255 < 2 ^ 53"
    by (simp only: single_cell_block)
  have le: "cell_brightness ?s ?o 0 0 \<le> cell_brightness ?g ?o 0 0"
    by (simp only: slate_cell(1) grey_cell(1))
  have gap: "(1 / 3 :: rat) + (15 / 2 ^ 53 + 15 / 2 ^ 53) \<le> 128 / 255" by simp
  note t = glyph_index_monotone [OF p p, of ?s 0 0 ?g 0 0]
  have i: "charIndex (cell_brightness ?s ?o 0 0) \<le> charIndex (cell_brightness ?g ?o 0 0)"
    using t le by blast
  have "spec_brightness (context_of ?s) 0 0 1 1
      + ((of_nat (1 * 1) + 14) / 2 ^ 53 + (of_nat (1 * 1) + 14) / 2 ^ 53)
      \<le> spec_brightness (context_of ?g) 0 0 1 1"
    by (simp only: slate_cell(3) grey_cell(3)) simp
  then have h: "spec_brightness (context_of ?s) (pixelX ?s ?o 0) (pixelY ?s ?o 0)
        (the_charWidth ?o) (the_charHeight ?o)
      + ((of_nat (the_charWidth ?o * the_charHeight ?o) + 14) / 2 ^ 53
         + (of_nat (the_charWidth ?o * the_charHeight ?o) + 14) / 2 ^ 53)
      \<le> spec_brightness (context_of ?g) (pixelX ?g ?o 0) (pixelY ?g ?o 0)
        (the_charWidth ?o) (the_charHeight ?o)"
    by (simp only: single_cell_block)
  have j: "charIndex (cell_brightness ?s ?o 0 0) \<le> charIndex (cell_brightness ?g ?o 0 0)"
    using t small h by blast
  have r1: "render_cell ?s (context_of ?s) ?o 0 0 = Inr ''*''"
    using t by (simp only: slate_cell(2) ramp_3)
  have r2: "render_cell ?g (context_of ?g) ?o 0 0 = Inr ''+''"
    using t by (simp only: grey_cell(2) ramp_4)
  show ?thesis
    by (intro conjI) (rule p small slate_cell grey_cell le gap j r1 r2)+
qed

end
